theory Spec2Isabelle
  imports Main
begin

section \<open>Strings\<close>

text \<open>
  A Python \<open>str\<close> is modelled as a \<open>string\<close>, one \<open>char\<close> per code point; the model
  covers the code points below 256. The character tables below are the ones of Python 3
  (\<open>str.isspace\<close>, \<open>str.isalnum\<close>, \<open>str.lower\<close>) on that range.
\<close>

abbreviation BSL :: char where "BSL \<equiv> CHR 0x5C"
abbreviation DQ :: char where "DQ \<equiv> CHR 0x22"
abbreviation SQ :: char where "SQ \<equiv> CHR 0x27"
abbreviation NL :: char where "NL \<equiv> CHR 0x0A"

definition code :: "char \<Rightarrow> nat" where
  "code c = of_char c"

definition py_isspace :: "char \<Rightarrow> bool" where
  "py_isspace c =
     (let n = code c
      in (9 \<le> n \<and> n \<le> 13) \<or> (28 \<le> n \<and> n \<le> 32) \<or> n = 133 \<or> n = 160)"

definition py_isword :: "char \<Rightarrow> bool" where
  \<comment> \<open>the class \<open>\w\<close> of a \<open>str\<close> pattern: \<open>isalnum\<close> or an underscore\<close>
  "py_isword c =
     (let n = code c
      in (48 \<le> n \<and> n \<le> 57) \<or> (65 \<le> n \<and> n \<le> 90) \<or> n = 95 \<or> (97 \<le> n \<and> n \<le> 122)
         \<or> n = 170 \<or> n = 178 \<or> n = 179 \<or> n = 181 \<or> n = 185 \<or> n = 186
         \<or> (188 \<le> n \<and> n \<le> 190) \<or> (192 \<le> n \<and> n \<le> 214) \<or> (216 \<le> n \<and> n \<le> 246)
         \<or> (248 \<le> n \<and> n \<le> 255))"

definition lower_char :: "char \<Rightarrow> char" where
  "lower_char c =
     (let n = code c
      in if (65 \<le> n \<and> n \<le> 90) \<or> (192 \<le> n \<and> n \<le> 222 \<and> n \<noteq> 215)
         then char_of (n + 32) else c)"

definition lower :: "string \<Rightarrow> string" where
  "lower s = map lower_char s"

definition strip :: "string \<Rightarrow> string" where
  "strip s = rev (dropWhile py_isspace (rev (dropWhile py_isspace s)))"

definition startswith :: "string \<Rightarrow> string \<Rightarrow> bool" where
  "startswith s p = (take (length p) s = p)"

definition endswith :: "string \<Rightarrow> string \<Rightarrow> bool" where
  "endswith s p = (length p \<le> length s \<and> drop (length s - length p) s = p)"

section \<open>Regular expressions\<close>

text \<open>
  The patterns of the parser are terms of the datatype \<open>re\<close>, and \<open>rmatch\<close> is a
  backtracking matcher: it returns the states in which a match of the pattern can end,
  in the order in which Python's \<open>re\<close> tries them, so that the head of the list is the
  match Python reports. A state holds the text before the position (reversed, the
  look-behind assertions read it), the text from the position on, and the groups
  captured so far (the newest binding of a group first).
\<close>

datatype citem = C char | Range char char | Space | NonSpace

fun citem_has :: "citem \<Rightarrow> char \<Rightarrow> bool" where
  "citem_has (C x) c = (c = x)"
| "citem_has (Range a b) c = (code a \<le> code c \<and> code c \<le> code b)"
| "citem_has Space c = py_isspace c"
| "citem_has NonSpace c = (\<not> py_isspace c)"

definition cset_has :: "citem list \<Rightarrow> char \<Rightarrow> bool" where
  "cset_has items c = list_ex (\<lambda>i. citem_has i c) items"

datatype re =
    Eps
  | Lit char
  | In "citem list"
  | NotIn "citem list"
  | Cat re re
  | Alt re re
  | Rep bool nat "nat option" re
  | Grp nat re
  | Ref nat
  | Ahead bool re
  | Behind bool re
  | WordB
  | Eos

record mst =
  seen :: string
  rest :: string
  caps :: "(nat \<times> string) list"

definition step1 :: "(char \<Rightarrow> bool) \<Rightarrow> mst \<Rightarrow> mst list" where
  "step1 P s =
     (case rest s of
        [] \<Rightarrow> []
      | c # cs \<Rightarrow> if P c then [s\<lparr>seen := c # seen s, rest := cs\<rparr>] else [])"

definition rewind :: "nat \<Rightarrow> mst \<Rightarrow> mst" where
  "rewind k s = s\<lparr>seen := drop k (seen s), rest := rev (take k (seen s)) @ rest s\<rparr>"

text \<open>
  \<open>rep_iter f greedy lo n s\<close>: the body \<open>f\<close> repeated at least \<open>lo\<close> and at most \<open>n\<close>
  more times. A greedy repeat tries one more round before it tries to stop, a lazy one
  the other way round. A round beyond the required ones has to consume text.
\<close>

fun rep_iter :: "(mst \<Rightarrow> mst list) \<Rightarrow> bool \<Rightarrow> nat \<Rightarrow> nat \<Rightarrow> mst \<Rightarrow> mst list" where
  "rep_iter f g lo 0 s = (if lo = 0 then [s] else [])"
| "rep_iter f g lo (Suc n) s =
     (let more = concat (map (rep_iter f g (lo - 1) n)
                   (filter (\<lambda>s'. 0 < lo \<or> length (rest s') < length (rest s)) (f s)));
          stop = (if lo = 0 then [s] else [])
      in if g then more @ stop else stop @ more)"

primrec rmatch :: "re \<Rightarrow> mst \<Rightarrow> mst list" where
  "rmatch Eps s = [s]"
| "rmatch (Lit c) s = step1 (\<lambda>x. x = c) s"
| "rmatch (In items) s = step1 (cset_has items) s"
| "rmatch (NotIn items) s = step1 (\<lambda>x. \<not> cset_has items x) s"
| "rmatch (Cat a b) s = concat (map (rmatch b) (rmatch a s))"
| "rmatch (Alt a b) s = rmatch a s @ rmatch b s"
| "rmatch (Rep g lo hi r) s =
     rep_iter (rmatch r) g lo
       (case hi of None \<Rightarrow> lo + length (rest s)
        | Some h \<Rightarrow> min h (lo + length (rest s))) s"
| "rmatch (Grp n r) s =
     map (\<lambda>s'. s'\<lparr>caps := (n, take (length (rest s) - length (rest s')) (rest s)) # caps s'\<rparr>)
       (rmatch r s)"
| "rmatch (Ref n) s =
     (case map_of (caps s) n of
        None \<Rightarrow> []
      | Some v \<Rightarrow>
          if take (length v) (rest s) = v
          then [s\<lparr>seen := rev v @ seen s, rest := drop (length v) (rest s)\<rparr>] else [])"
| "rmatch (Ahead p r) s = (if (rmatch r s \<noteq> []) = p then [s] else [])"
| "rmatch (Behind p r) s =
     (if list_ex (\<lambda>k. list_ex (\<lambda>s'. length (rest s') = length (rest s)) (rmatch r (rewind k s)))
           [0..<Suc (length (seen s))] = p
      then [s] else [])"
| "rmatch WordB s =
     (if (case seen s of [] \<Rightarrow> False | c # _ \<Rightarrow> py_isword c)
         \<noteq> (case rest s of [] \<Rightarrow> False | c # _ \<Rightarrow> py_isword c)
      then [s] else [])"
| "rmatch Eos s = (if rest s = [] \<or> rest s = [NL] then [s] else [])"

text \<open>Python's match object: the span, the whole match and the groups that took part.\<close>

record match =
  m_start :: nat
  m_end :: nat
  group0 :: string
  groups :: "(nat \<times> string) list"

definition group :: "match \<Rightarrow> nat \<Rightarrow> string option" where
  "group m k = map_of (groups m) k"

definition match_at :: "re \<Rightarrow> string \<Rightarrow> nat \<Rightarrow> match option" where
  "match_at r s p =
     (case rmatch r \<lparr>seen = rev (take p s), rest = drop p s, caps = []\<rparr> of
        [] \<Rightarrow> None
      | s' # _ \<Rightarrow>
          Some \<lparr>m_start = p, m_end = length s - length (rest s'),
                group0 = take (length s - length (rest s') - p) (drop p s),
                groups = caps s'\<rparr>)"

subsection \<open>Writing patterns\<close>

fun seq :: "re list \<Rightarrow> re" where
  "seq [] = Eps"
| "seq [r] = r"
| "seq (r # rs) = Cat r (seq rs)"

fun alts :: "re list \<Rightarrow> re" where
  "alts [] = In []"
| "alts [r] = r"
| "alts (r # rs) = Alt r (alts rs)"

definition lit :: "string \<Rightarrow> re" where
  "lit s = seq (map Lit s)"

definition chars :: "string \<Rightarrow> citem list" where
  "chars s = map C s"

abbreviation many :: "re \<Rightarrow> re" where "many r \<equiv> Rep True 0 None r"
abbreviation many1 :: "re \<Rightarrow> re" where "many1 r \<equiv> Rep True 1 None r"
abbreviation maybe :: "re \<Rightarrow> re" where "maybe r \<equiv> Rep True 0 (Some 1) r"
abbreviation many_lazy :: "re \<Rightarrow> re" where "many_lazy r \<equiv> Rep False 0 None r"
abbreviation many1_lazy :: "re \<Rightarrow> re" where "many1_lazy r \<equiv> Rep False 1 None r"
abbreviation anychar :: re where "anychar \<equiv> In [Space, NonSpace]"
abbreviation wsp :: re where "wsp \<equiv> In [Space]"
abbreviation alpha :: "citem list" where "alpha \<equiv> [Range CHR ''A'' CHR ''Z'', Range CHR ''a'' CHR ''z'']"
abbreviation alnum :: "citem list" where "alnum \<equiv> alpha @ [Range CHR ''0'' CHR ''9'']"

section \<open>The patterns of the inline parser\<close>

definition PUNCTUATION :: "citem list" where
  "PUNCTUATION = chars ([BSL] @ ''!'' @ [DQ] @ ''#$%&'' @ [SQ] @ ''()*+,./:;<=>?@[]^`{}|_~-'')"

definition ESCAPE :: re where
  "ESCAPE = seq [Lit BSL, In PUNCTUATION]"

definition HTML_TAGNAME :: re where
  "HTML_TAGNAME = seq [In alpha, many (In (alnum @ [C CHR ''-'']))]"

definition HTML_ATTRIBUTES :: re where
  "HTML_ATTRIBUTES =
     many (seq [many1 wsp, In (alpha @ chars ''_:''), many (In (alnum @ chars ''_.:-'')),
       maybe (seq [many wsp, Lit CHR ''='', many wsp,
         alts [many1 (NotIn (chars ('' '' @ [DQ, SQ] @ ''=<>`''))),
               seq [Lit SQ, many_lazy (NotIn [C SQ]), Lit SQ],
               seq [Lit DQ, many_lazy (NotIn [C DQ]), Lit DQ]]])])"

definition LINK_LABEL :: re where
  "LINK_LABEL =
     seq [Lit CHR ''['',
       Grp 1 (many_lazy (alts
         [seq [Lit CHR ''['', many (NotIn (chars ''[]'')), Lit CHR '']''],
          seq [Lit BSL, maybe (In (chars ''[]''))],
          seq [Lit CHR ''`'', many (NotIn (chars ''`'')), Lit CHR ''`''],
          NotIn (chars (''[]'' @ [BSL]))])),
       Lit CHR '']'']"

definition AUTO_LINK :: re where
  "AUTO_LINK =
     seq [Behind False (Lit BSL), many (lit [BSL, BSL]), Lit CHR ''<'',
       Grp 1 (alts
         [seq [In alpha, Rep True 1 (Some 31) (In (alnum @ chars ''+.-'')), Lit CHR '':'',
               many_lazy (NotIn (chars '' <>''))],
          seq [many1 (In (alnum @ chars (''.!#$%&'' @ [SQ] @ ''*+/=?^_`{|}~-''))), Lit CHR ''@'',
               In alnum,
               maybe (seq [Rep True 0 (Some 61) (In (alnum @ chars ''-'')), In alnum]),
               many (seq [Lit CHR ''.'', In alnum,
                 maybe (seq [Rep True 0 (Some 61) (In (alnum @ chars ''-'')), In alnum])])]]),
       Lit CHR ''>'']"

definition STD_LINK :: re where
  "STD_LINK =
     seq [maybe (Lit CHR ''!''), LINK_LABEL, Lit CHR ''('', many wsp,
       Grp 2 (alts
         [seq [Lit CHR ''<'',
               many (alts [seq [Lit BSL, maybe (In (chars ''<>''))],
                           NotIn (Space # chars (''<>'' @ [BSL]))]),
               Lit CHR ''>''],
          many_lazy (alts
            [seq [Lit BSL, maybe (In (chars ''()''))],
             seq [Lit CHR ''('', many (NotIn [Space, Range (CHR 0x00) (CHR 0x1F), C BSL]),
                  Lit CHR '')''],
             NotIn ([Space, Range (CHR 0x00) (CHR 0x1F)] @ chars (''()'' @ [BSL]))])]),
       maybe (seq [many1 wsp,
         Grp 3 (alts
           [seq [Lit DQ, many (alts [seq [Lit BSL, maybe (Lit DQ)], NotIn (chars [DQ, BSL])]),
                 Lit DQ],
            seq [Lit SQ, many (alts [seq [Lit BSL, maybe (Lit SQ)], NotIn (chars [SQ, BSL])]),
                 Lit SQ],
            seq [Lit CHR ''('',
                 many (alts [seq [Lit BSL, maybe (Lit CHR '')'')], NotIn (chars ('')'' @ [BSL]))]),
                 Lit CHR '')'']])]),
       many wsp, Lit CHR '')'']"

definition REF_LINK :: re where
  "REF_LINK =
     seq [maybe (Lit CHR ''!''), LINK_LABEL, Lit CHR ''['',
       Grp 2 (Rep True 0 (Some 1000) (alts [NotIn (chars ([BSL] @ ''[]'')), ESCAPE])),
       Lit CHR '']'']"

definition REF_LINK2 :: re where
  "REF_LINK2 =
     seq [maybe (Lit CHR ''!''), Lit CHR ''['',
       Grp 1 (Rep True 0 (Some 1000) (alts [NotIn (chars ([BSL] @ ''[]'')), ESCAPE])),
       Lit CHR '']'']"

definition EMPHASIS :: re where
  "EMPHASIS =
     alts
       [seq [WordB, Lit CHR ''_'', NotIn [Space, C CHR ''_''],
             maybe (seq [Behind True (Lit BSL), Lit CHR ''_'']), Lit CHR ''_''],
        seq [Lit CHR ''*'', NotIn [Space, C CHR ''*''],
             maybe (seq [Behind True (Lit BSL), Lit CHR ''*'']), Lit CHR ''*''],
        seq [WordB, Lit CHR ''_'', NotIn [Space, C CHR ''_''], many_lazy anychar,
             NotIn [Space, C CHR ''_''], Lit CHR ''_'',
             Ahead False (alts [Lit CHR ''_'', NotIn (Space # PUNCTUATION)]), WordB],
        seq [Lit CHR ''*'', NotIn (Space # chars (''*'' @ [DQ] @ ''<['')), many_lazy anychar,
             NotIn [Space, C CHR ''*''], Lit CHR ''*'']]"

definition STRONG :: re where
  "STRONG =
     alts
       [seq [WordB, lit ''__'', NotIn [Space, C CHR ''_''], lit ''__'',
             Ahead False (Lit CHR ''_''), WordB],
        seq [lit ''**'', NotIn [Space, C CHR ''*''], lit ''**'', Ahead False (Lit CHR ''*'')],
        seq [WordB, lit ''__'', NotIn [Space], many_lazy anychar, NotIn [Space], lit ''__'',
             Ahead False (Lit CHR ''_''), WordB],
        seq [lit ''**'', NotIn [Space], many_lazy anychar, NotIn [Space], lit ''**'',
             Ahead False (Lit CHR ''*'')]]"

definition CODESPAN :: re where
  "CODESPAN =
     seq [Behind False (alts [Lit BSL, Lit CHR ''`'']), many (lit [BSL, BSL]),
       Grp 1 (many1 (Lit CHR ''`'')), Ahead False (Lit CHR ''`''),
       Grp 2 (many1_lazy anychar), Behind False (Lit CHR ''`''), Ref 1,
       Ahead False (Lit CHR ''`'')]"

definition LINEBREAK :: re where
  "LINEBREAK =
     seq [alts [Lit BSL, Rep True 2 None (Lit CHR '' '')], Lit NL,
       Ahead False (seq [many wsp, Eos])]"

definition STRIKETHROUGH :: re where
  "STRIKETHROUGH =
     seq [lit ''~~'', Ahead True (In [NonSpace]), Grp 1 (seq [many_lazy anychar, In [NonSpace]]),
       lit ''~~'']"

definition FOOTNOTE :: re where
  "FOOTNOTE =
     seq [Lit CHR ''['', Lit CHR ''^'', Grp 1 (many1 (NotIn (chars '']''))), Lit CHR '']'']"

definition INLINE_HTML :: re where
  "INLINE_HTML =
     alts
       [seq [Behind False (Lit BSL), Lit CHR ''<'', HTML_TAGNAME, HTML_ATTRIBUTES, many wsp,
             maybe (Lit CHR ''/''), Lit CHR ''>''],
        seq [Behind False (Lit BSL), lit ''</'', HTML_TAGNAME, many wsp, Lit CHR ''>''],
        seq [Behind False (Lit BSL), lit ''<!--'', Ahead False (alts [Lit CHR ''>'', lit ''->'']),
             many1_lazy (seq [Ahead False (lit ''--''), anychar]), Behind False (Lit CHR ''-''),
             lit ''-->''],
        seq [Behind False (Lit BSL), lit ''<?'', many1_lazy anychar, lit ''?>''],
        seq [Behind False (Lit BSL), lit ''<!'', In [Range CHR ''A'' CHR ''Z''], many1_lazy anychar,
             Lit CHR ''>''],
        seq [Behind False (Lit BSL), lit ''<![CDATA'', many1_lazy anychar, lit '']]>'']]"

datatype rule =
    escape | inline_html | auto_link | footnote | std_link | ref_link | ref_link2
  | strong | emphasis | codespan | strikethrough | linebreak

definition RULE_NAMES :: "rule list" where
  "RULE_NAMES =
     [escape, inline_html, auto_link, footnote, std_link, ref_link, ref_link2, strong,
      emphasis, codespan, strikethrough, linebreak]"

section \<open>What a match consumes\<close>

text \<open>
  Two bounds that hold for every match and are computed from the pattern alone:
  \<open>min_len r\<close>, a number of characters every match of \<open>r\<close> consumes, and \<open>slack k r\<close>,
  a number of characters every match of \<open>r\<close> consumes outside of what it captured as
  group \<open>k\<close> (\<open>None\<close> when \<open>r\<close> never sets group \<open>k\<close>). They show that the scanner
  advances and that the text an action parses again is shorter than the text it came from.
\<close>

primrec min_len :: "re \<Rightarrow> nat" where
  "min_len Eps = 0"
| "min_len (Lit c) = 1"
| "min_len (In items) = 1"
| "min_len (NotIn items) = 1"
| "min_len (Cat a b) = min_len a + min_len b"
| "min_len (Alt a b) = min (min_len a) (min_len b)"
| "min_len (Rep g lo hi r) = lo * min_len r"
| "min_len (Grp n r) = min_len r"
| "min_len (Ref n) = 0"
| "min_len (Ahead p r) = 0"
| "min_len (Behind p r) = 0"
| "min_len WordB = 0"
| "min_len Eos = 0"

fun opt_min :: "nat option \<Rightarrow> nat option \<Rightarrow> nat option" where
  "opt_min None y = y"
| "opt_min x None = x"
| "opt_min (Some i) (Some j) = Some (min i j)"

primrec slack :: "nat \<Rightarrow> re \<Rightarrow> nat option" where
  "slack k Eps = None"
| "slack k (Lit c) = None"
| "slack k (In items) = None"
| "slack k (NotIn items) = None"
| "slack k (Cat a b) =
     opt_min (map_option (\<lambda>i. i + min_len b) (slack k a))
             (map_option (\<lambda>j. j + min_len a) (slack k b))"
| "slack k (Alt a b) = opt_min (slack k a) (slack k b)"
| "slack k (Rep g lo hi r) = slack k r"
| "slack k (Grp n r) = (if n = k then Some 0 else slack k r)"
| "slack k (Ref n) = None"
| "slack k (Ahead p r) = None"
| "slack k (Behind p r) = None"
| "slack k WordB = None"
| "slack k Eos = None"

definition moved :: "nat \<Rightarrow> (nat \<Rightarrow> nat option) \<Rightarrow> mst \<Rightarrow> mst \<Rightarrow> bool" where
  "moved ml sl s s' \<longleftrightarrow>
     (\<exists>w. rest s = w @ rest s' \<and> seen s' = rev w @ seen s \<and> ml \<le> length w \<and>
        (\<forall>k v. map_of (caps s') k = Some v \<longrightarrow>
           map_of (caps s) k = Some v \<or> (\<exists>i. sl k = Some i \<and> length v + i \<le> length w)))"

lemma opt_min_le1: "x = Some i \<Longrightarrow> \<exists>m. opt_min x y = Some m \<and> m \<le> i"
  by (cases y) auto

lemma opt_min_le2: "y = Some j \<Longrightarrow> \<exists>m. opt_min x y = Some m \<and> m \<le> j"
  by (cases x) auto

lemma moved_refl: "moved 0 sl s s"
  by (simp add: moved_def)

lemma moved_step1: "s' \<in> set (step1 P s) \<Longrightarrow> moved 1 sl s s'"
  by (auto simp: moved_def step1_def split: list.splits if_splits)

lemma moved_trans:
  assumes "moved m1 sl1 s s1" and "moved m2 sl2 s1 s'"
    and "\<And>k i. sl1 k = Some i \<Longrightarrow> \<exists>j. sl k = Some j \<and> j \<le> i + m2"
    and "\<And>k i. sl2 k = Some i \<Longrightarrow> \<exists>j. sl k = Some j \<and> j \<le> i + m1"
  shows "moved (m1 + m2) sl s s'"
proof -
  from assms(1) obtain w1 where w1: "rest s = w1 @ rest s1" "seen s1 = rev w1 @ seen s"
    "m1 \<le> length w1"
    "\<forall>k v. map_of (caps s1) k = Some v \<longrightarrow>
       map_of (caps s) k = Some v \<or> (\<exists>i. sl1 k = Some i \<and> length v + i \<le> length w1)"
    unfolding moved_def by blast
  from assms(2) obtain w2 where w2: "rest s1 = w2 @ rest s'" "seen s' = rev w2 @ seen s1"
    "m2 \<le> length w2"
    "\<forall>k v. map_of (caps s') k = Some v \<longrightarrow>
       map_of (caps s1) k = Some v \<or> (\<exists>i. sl2 k = Some i \<and> length v + i \<le> length w2)"
    unfolding moved_def by blast
  have caps: "map_of (caps s) k = Some v \<or> (\<exists>i. sl k = Some i \<and> length v + i \<le> length (w1 @ w2))"
    if v: "map_of (caps s') k = Some v" for k v
  proof -
    from w2(4) v consider "map_of (caps s1) k = Some v"
      | i where "sl2 k = Some i" "length v + i \<le> length w2" by blast
    then show ?thesis
    proof cases
      case 1
      with w1(4) consider "map_of (caps s) k = Some v"
        | i where "sl1 k = Some i" "length v + i \<le> length w1" by blast
      then show ?thesis
      proof cases
        case 1 then show ?thesis by simp
      next
        case 2
        from assms(3)[OF 2(1)] obtain j where "sl k = Some j" "j \<le> i + m2" by blast
        with 2 w2(3) show ?thesis by auto
      qed
    next
      case 2
      from assms(4)[OF 2(1)] obtain j where "sl k = Some j" "j \<le> i + m1" by blast
      with 2 w1(3) show ?thesis by auto
    qed
  qed
  show ?thesis unfolding moved_def
    by (rule exI[of _ "w1 @ w2"]) (use w1 w2 caps in auto)
qed

lemma moved_weaken:
  assumes "moved m1 sl1 s s'" and "m \<le> m1"
    and "\<And>k i. sl1 k = Some i \<Longrightarrow> \<exists>j. sl k = Some j \<and> j \<le> i"
  shows "moved m sl s s'"
proof -
  from assms(1) obtain w where w: "rest s = w @ rest s'" "seen s' = rev w @ seen s"
    "m1 \<le> length w"
    "\<forall>k v. map_of (caps s') k = Some v \<longrightarrow>
       map_of (caps s) k = Some v \<or> (\<exists>i. sl1 k = Some i \<and> length v + i \<le> length w)"
    unfolding moved_def by blast
  have "map_of (caps s) k = Some v \<or> (\<exists>i. sl k = Some i \<and> length v + i \<le> length w)"
    if v: "map_of (caps s') k = Some v" for k v
  proof -
    from w(4) v consider "map_of (caps s) k = Some v"
      | i where "sl1 k = Some i" "length v + i \<le> length w" by blast
    then show ?thesis
    proof cases
      case 1 then show ?thesis by simp
    next
      case 2
      from assms(3)[OF 2(1)] obtain j where "sl k = Some j" "j \<le> i" by blast
      with 2 show ?thesis by auto
    qed
  qed
  with w assms(2) show ?thesis unfolding moved_def by (intro exI[of _ w]) auto
qed

lemma moved_rep_iter:
  assumes f: "\<And>s s'. s' \<in> set (f s) \<Longrightarrow> moved ml sl s s'"
  shows "s' \<in> set (rep_iter f g lo n s) \<Longrightarrow> moved (lo * ml) sl s s'"
proof (induction n arbitrary: lo s)
  case 0
  then show ?case by (auto simp: moved_refl split: if_splits)
next
  case (Suc n)
  from Suc.prems consider "lo = 0" "s' = s"
    | s1 where "s1 \<in> set (f s)" "s' \<in> set (rep_iter f g (lo - 1) n s1)"
    by (auto simp: Let_def split: if_splits)
  then show ?case
  proof cases
    case 1
    then show ?thesis by (simp add: moved_refl)
  next
    case 2
    have a: "moved ml sl s s1" using f 2(1) .
    have b: "moved ((lo - 1) * ml) sl s1 s'" using Suc.IH 2(2) .
    have "moved (ml + (lo - 1) * ml) sl s s'"
      by (rule moved_trans[OF a b]) auto
    then show ?thesis
      by (rule moved_weaken) (cases lo; auto)+
  qed
qed

lemma moved_cat:
  assumes "moved (min_len a) (\<lambda>k. slack k a) s s1" and "moved (min_len b) (\<lambda>k. slack k b) s1 s'"
  shows "moved (min_len (Cat a b)) (\<lambda>k. slack k (Cat a b)) s s'"
proof -
  have 1: "\<exists>j. slack k (Cat a b) = Some j \<and> j \<le> i + min_len b" if "slack k a = Some i" for k i
    using that opt_min_le1[of "map_option (\<lambda>i. i + min_len b) (slack k a)" "i + min_len b"]
    by simp
  have 2: "\<exists>j. slack k (Cat a b) = Some j \<and> j \<le> i + min_len a" if "slack k b = Some i" for k i
    using that opt_min_le2[of "map_option (\<lambda>j. j + min_len a) (slack k b)" "i + min_len a"]
    by simp
  have "moved (min_len a + min_len b) (\<lambda>k. slack k (Cat a b)) s s'"
    using assms(1) assms(2) 1 2 by (rule moved_trans)
  then show ?thesis by simp
qed

lemma moved_alt1:
  assumes "moved (min_len a) (\<lambda>k. slack k a) s s'"
  shows "moved (min_len (Alt a b)) (\<lambda>k. slack k (Alt a b)) s s'"
proof -
  have 1: "\<exists>j. slack k (Alt a b) = Some j \<and> j \<le> i" if "slack k a = Some i" for k i
    using that opt_min_le1[of "slack k a" i "slack k b"] by simp
  have 2: "min_len (Alt a b) \<le> min_len a" by simp
  show ?thesis using assms 2 1 by (rule moved_weaken)
qed

lemma moved_alt2:
  assumes "moved (min_len b) (\<lambda>k. slack k b) s s'"
  shows "moved (min_len (Alt a b)) (\<lambda>k. slack k (Alt a b)) s s'"
proof -
  have 1: "\<exists>j. slack k (Alt a b) = Some j \<and> j \<le> i" if "slack k b = Some i" for k i
    using that opt_min_le2[of "slack k b" i "slack k a"] by simp
  have 2: "min_len (Alt a b) \<le> min_len b" by simp
  show ?thesis using assms 2 1 by (rule moved_weaken)
qed

lemma moved_grp:
  assumes "moved (min_len r) (\<lambda>k. slack k r) s s1"
  shows "moved (min_len (Grp n r)) (\<lambda>k. slack k (Grp n r)) s
           (s1\<lparr>caps := (n, take (length (rest s) - length (rest s1)) (rest s)) # caps s1\<rparr>)"
proof -
  from assms obtain w where w: "rest s = w @ rest s1" "seen s1 = rev w @ seen s"
    "min_len r \<le> length w"
    "\<forall>k v. map_of (caps s1) k = Some v \<longrightarrow>
       map_of (caps s) k = Some v \<or> (\<exists>i. slack k r = Some i \<and> length v + i \<le> length w)"
    unfolding moved_def by blast
  have tk: "take (length (rest s) - length (rest s1)) (rest s) = w"
    using w(1) by simp
  show ?thesis unfolding moved_def tk
  proof (intro exI[of _ w] conjI allI impI)
    fix k v
    assume "map_of (caps (s1\<lparr>caps := (n, w) # caps s1\<rparr>)) k = Some v"
    then have "(k = n \<and> v = w) \<or> (k \<noteq> n \<and> map_of (caps s1) k = Some v)"
      by (simp split: if_splits)
    then show "map_of (caps s) k = Some v \<or>
       (\<exists>i. slack k (Grp n r) = Some i \<and> length v + i \<le> length w)"
      using w(4) by auto
  qed (use w in simp_all)
qed

lemma moved_ref:
  assumes "s' \<in> set (rmatch (Ref n) s)"
  shows "moved 0 sl s s'"
proof (cases "map_of (caps s) n")
  case None
  with assms show ?thesis by simp
next
  case (Some v)
  with assms have v: "take (length v) (rest s) = v"
    "s' = s\<lparr>seen := rev v @ seen s, rest := drop (length v) (rest s)\<rparr>"
    by (simp_all split: if_splits)
  have "rest s = v @ drop (length v) (rest s)"
    using v(1) append_take_drop_id[of "length v" "rest s"] by simp
  then show ?thesis unfolding moved_def v(2)
    by (intro exI[of _ v]) simp
qed

lemma moved_rmatch: "s' \<in> set (rmatch r s) \<Longrightarrow> moved (min_len r) (\<lambda>k. slack k r) s s'"
proof (induction r arbitrary: s s')
  case Eps
  then show ?case by (simp add: moved_refl)
next
  case (Lit c)
  then show ?case using moved_step1[of s' _ s "\<lambda>k. None"] by simp
next
  case (In items)
  then show ?case using moved_step1[of s' _ s "\<lambda>k. None"] by simp
next
  case (NotIn items)
  then show ?case using moved_step1[of s' _ s "\<lambda>k. None"] by simp
next
  case (Cat a b)
  from Cat.prems obtain s1 where s1: "s1 \<in> set (rmatch a s)" "s' \<in> set (rmatch b s1)"
    by auto
  show ?case
    using Cat.IH(1)[OF s1(1)] Cat.IH(2)[OF s1(2)] by (rule moved_cat)
next
  case (Alt a b)
  from Alt.prems consider "s' \<in> set (rmatch a s)" | "s' \<in> set (rmatch b s)" by auto
  then show ?case
  proof cases
    case 1
    show ?thesis using Alt.IH(1)[OF 1] by (rule moved_alt1)
  next
    case 2
    show ?thesis using Alt.IH(2)[OF 2] by (rule moved_alt2)
  qed
next
  case (Rep g lo hi r)
  have "s' \<in> set (rep_iter (rmatch r) g lo
       (case hi of None \<Rightarrow> lo + length (rest s)
        | Some h \<Rightarrow> min h (lo + length (rest s))) s)"
    using Rep.prems by simp
  then have "moved (lo * min_len r) (\<lambda>k. slack k r) s s'"
    using Rep.IH by (rule moved_rep_iter[rotated])
  then show ?case by simp
next
  case (Grp n r)
  from Grp.prems obtain s1 where s1: "s1 \<in> set (rmatch r s)"
    "s' = s1\<lparr>caps := (n, take (length (rest s) - length (rest s1)) (rest s)) # caps s1\<rparr>"
    by auto
  show ?case unfolding s1(2) using Grp.IH[OF s1(1)] by (rule moved_grp)
next
  case (Ref n)
  then show ?case using moved_ref by simp
next
  case (Ahead p r)
  then have "s' = s" by (simp split: if_splits)
  then show ?case by (simp add: moved_refl)
next
  case (Behind p r)
  then have "s' = s" by (simp split: if_splits)
  then show ?case by (simp add: moved_refl)
next
  case WordB
  then have "s' = s" by (simp split: if_splits)
  then show ?case by (simp add: moved_refl)
next
  case Eos
  then have "s' = s" by (simp split: if_splits)
  then show ?case by (simp add: moved_refl)
qed


lemma match_at_bounds:
  assumes "match_at r s p = Some m" and "p \<le> length s"
  shows "m_start m = p" and "m_end m \<le> length s" and "p + min_len r \<le> m_end m"
    and "length (group0 m) = m_end m - p"
    and "group m k = Some v \<Longrightarrow> \<exists>i. slack k r = Some i \<and> length v + i \<le> m_end m - p"
proof -
  let ?s0 = "\<lparr>seen = rev (take p s), rest = drop p s, caps = []\<rparr>"
  from assms(1) obtain s' ss where s': "rmatch r ?s0 = s' # ss"
    and m: "m = \<lparr>m_start = p, m_end = length s - length (rest s'),
                group0 = take (length s - length (rest s') - p) (drop p s),
                groups = caps s'\<rparr>"
    by (auto simp: match_at_def split: list.splits)
  have "s' \<in> set (rmatch r ?s0)" using s' by simp
  then have "moved (min_len r) (\<lambda>k. slack k r) ?s0 s'" by (rule moved_rmatch)
  then obtain w where w: "drop p s = w @ rest s'" "min_len r \<le> length w"
    "\<forall>k v. map_of (caps s') k = Some v \<longrightarrow> (\<exists>i. slack k r = Some i \<and> length v + i \<le> length w)"
    unfolding moved_def by auto
  have len: "length s - p = length w + length (rest s')"
    using arg_cong[OF w(1), of length] by simp
  show "m_start m = p" by (simp add: m)
  show "m_end m \<le> length s" by (simp add: m)
  show "p + min_len r \<le> m_end m" using len w(2) assms(2) by (simp add: m)
  have e: "m_end m - p = length w" using len assms(2) by (simp add: m)
  show "length (group0 m) = m_end m - p" using len assms(2) by (simp add: m)
  show "\<exists>i. slack k r = Some i \<and> length v + i \<le> m_end m - p" if "group m k = Some v"
    using that w(3) unfolding e by (simp add: group_def m)
qed

section \<open>Parse state, tokens and collaborators\<close>

text \<open>
  The parse state is a Python dict; a field is \<open>None\<close> while its key is absent.
  \<open>def_links\<close> maps a normalised key to a destination and an optional title,
  \<open>def_footnotes\<close> holds the valid footnote keys.
\<close>

datatype error = TypeError | AttributeError | KeyError | IndexError | Raised string

record pstate =
  def_links :: "(string \<times> string \<times> string option) list option"
  def_footnotes :: "string list option"
  footnote_index :: "int option"
  footnotes :: "string list option"
  in_link :: "bool option"

text \<open>
  What \<open>render\<close> returns: the list of the renderer's outputs (a tree renderer) or their
  concatenation (a string renderer). A token is the tuple an action returns: its kind and
  the arguments of the renderer's method of that name.
\<close>

datatype 'r out = Nodes "'r list" | Str string

datatype 'r tok =
    Text string
  | Link string "'r out" "string option"
  | Image string "string option" "string option"
  | Emphasis "'r out"
  | Strong "'r out"
  | Codespan string
  | Strikethrough "'r out"
  | Linebreak
  | InlineHtml string
  | FootnoteRef string int

text \<open>
  The two helpers imported from the scanner module and the renderer are parameters of
  the model. \<open>get_method R t\<close> stands for \<open>renderer._get_method(t[0])(*t[1:])\<close>, which may
  raise; \<open>as_str\<close> tells which outputs are Python strings, the only ones \<open>''.join\<close> accepts.
\<close>

record helpers =
  escape_url :: "string \<Rightarrow> string"
  unikey :: "string \<Rightarrow> string"

record 'r renderer =
  IS_TREE :: bool
  get_method :: "'r tok \<Rightarrow> error + 'r"
  as_str :: "'r \<Rightarrow> string option"

type_synonym 'a res = "(error + 'a) \<times> pstate"

section \<open>The semantic actions\<close>

text \<open>
  \<open>unescape s\<close> is \<open>ESCAPE_CHAR.sub(r'\1', s)\<close>: from left to right, every backslash that
  is followed by a punctuation character is dropped, and that character is kept and not
  looked at again.
\<close>

fun unescape :: "string \<Rightarrow> string" where
  "unescape (c # d # cs) =
     (if c = BSL \<and> cset_has PUNCTUATION d then d # unescape cs else c # unescape (d # cs))"
| "unescape cs = cs"

text \<open>\<open>collapse s\<close> is \<open>re.sub(r'[ \n]+', ' ', s)\<close>.\<close>

function collapse :: "string \<Rightarrow> string" where
  "collapse [] = []"
| "collapse (c # cs) =
     (if c = CHR '' '' \<or> c = NL
      then CHR '' '' # collapse (dropWhile (\<lambda>x. x = CHR '' '' \<or> x = NL) cs)
      else c # collapse cs)"
  by pat_completeness auto
termination
  by (relation "measure length") (auto simp: le_imp_less_Suc length_dropWhile_le)

definition parse_escape :: "match \<Rightarrow> pstate \<Rightarrow> 'r tok res" where
  "parse_escape m state = (let text = drop 1 (group0 m) in (Inr (Text text), state))"

definition parse_auto_link :: "helpers \<Rightarrow> match \<Rightarrow> pstate \<Rightarrow> 'r tok res" where
  "parse_auto_link h m state =
     (case group m 1 of
        None \<Rightarrow> (Inl TypeError, state)
      | Some text \<Rightarrow>
          (let link = (if CHR ''@'' \<in> set text \<and> \<not> startswith (lower text) ''mailto:''
                       then ''mailto:'' @ text else text)
           in (Inr (Link (escape_url h link) (Str text) None), state)))"

text \<open>
  \<open>tokenize_link\<close> takes \<open>self.render\<close> as its first argument. A \<open>None\<close> text makes the
  scanner raise \<open>TypeError\<close> once the guard is set.
\<close>

definition tokenize_link ::
  "helpers \<Rightarrow> (string \<Rightarrow> pstate \<Rightarrow> 'r out res) \<Rightarrow> string \<Rightarrow> string \<Rightarrow> string option \<Rightarrow>
   string option \<Rightarrow> pstate \<Rightarrow> 'r tok res" where
  "tokenize_link h render line link text title state =
     (if in_link state = Some True then (Inr (Text line), state)
      else
        (let state1 = state\<lparr>in_link := Some True\<rparr>
         in case text of
              None \<Rightarrow> (Inl TypeError, state1)
            | Some t \<Rightarrow>
                (case render t state1 of
                   (Inl e, state2) \<Rightarrow> (Inl e, state2)
                 | (Inr text', state2) \<Rightarrow>
                     (Inr (Link (escape_url h link) text' title),
                      state2\<lparr>in_link := Some False\<rparr>))))"

definition parse_std_link ::
  "helpers \<Rightarrow> (string \<Rightarrow> pstate \<Rightarrow> 'r out res) \<Rightarrow> match \<Rightarrow> pstate \<Rightarrow> 'r tok res" where
  "parse_std_link h render m state =
     (let line = group0 m; text = group m 1
      in case group m 2 of
           None \<Rightarrow> (Inl TypeError, state)
         | Some g2 \<Rightarrow>
             (let link0 = unescape g2;
                  link = (if startswith link0 ''<'' \<and> endswith link0 ''>''
                          then butlast (tl link0) else link0);
                  title = (case group m 3 of
                             None \<Rightarrow> None
                           | Some t \<Rightarrow> if t = [] then Some t
                                       else Some (unescape (butlast (tl t))))
              in case line of
                   [] \<Rightarrow> (Inl IndexError, state)
                 | c # _ \<Rightarrow>
                     if c = CHR ''!'' then (Inr (Image link text title), state)
                     else tokenize_link h render line link text title state))"

definition parse_ref_link ::
  "helpers \<Rightarrow> (string \<Rightarrow> pstate \<Rightarrow> 'r out res) \<Rightarrow> match \<Rightarrow> pstate \<Rightarrow> 'r tok res" where
  "parse_ref_link h render m state =
     (let line = group0 m; text = group m 1
      in case (case group m 2 of None \<Rightarrow> text | Some g \<Rightarrow> if g = [] then text else Some g) of
           None \<Rightarrow> (Inl AttributeError, state)
         | Some k \<Rightarrow>
             (let key = unikey h k
              in case (case def_links state of
                         None \<Rightarrow> None
                       | Some dl \<Rightarrow> if dl = [] then None else map_of dl key) of
                   None \<Rightarrow> (Inr (Text (unescape line)), state)
                 | Some (link0, title0) \<Rightarrow>
                     (let link = unescape link0;
                          title = (case title0 of
                                     None \<Rightarrow> None
                                   | Some t \<Rightarrow> if t = [] then Some t else Some (unescape t))
                      in case line of
                           [] \<Rightarrow> (Inl IndexError, state)
                         | c # _ \<Rightarrow>
                             if c = CHR ''!'' then (Inr (Image link text title), state)
                             else tokenize_link h render line link text title state)))"

definition parse_ref_link2 ::
  "helpers \<Rightarrow> (string \<Rightarrow> pstate \<Rightarrow> 'r out res) \<Rightarrow> match \<Rightarrow> pstate \<Rightarrow> 'r tok res" where
  "parse_ref_link2 h render m state = parse_ref_link h render m state"

definition parse_footnote :: "match \<Rightarrow> pstate \<Rightarrow> 'r tok res" where
  "parse_footnote m state =
     (case group m 1 of
        None \<Rightarrow> (Inl AttributeError, state)
      | Some g \<Rightarrow>
          (let key = lower g
           in if (case def_footnotes state of None \<Rightarrow> True | Some df \<Rightarrow> df = [] \<or> key \<notin> set df)
              then (Inr (Text (group0 m)), state)
              else
                (let index = (case footnote_index state of None \<Rightarrow> 0 | Some i \<Rightarrow> i) + 1;
                     state1 = state\<lparr>footnote_index := Some index\<rparr>
                 in case footnotes state1 of
                      None \<Rightarrow> (Inl KeyError, state1)
                    | Some fs \<Rightarrow>
                        (Inr (FootnoteRef key index), state1\<lparr>footnotes := Some (fs @ [key])\<rparr>))))"

definition parse_emphasis ::
  "(string \<Rightarrow> pstate \<Rightarrow> 'r out res) \<Rightarrow> match \<Rightarrow> pstate \<Rightarrow> 'r tok res" where
  "parse_emphasis render m state =
     (let text = butlast (tl (group0 m))
      in case render text state of
           (Inl e, state1) \<Rightarrow> (Inl e, state1)
         | (Inr inner, state1) \<Rightarrow> (Inr (Emphasis inner), state1))"

definition parse_strong ::
  "(string \<Rightarrow> pstate \<Rightarrow> 'r out res) \<Rightarrow> match \<Rightarrow> pstate \<Rightarrow> 'r tok res" where
  "parse_strong render m state =
     (let text = drop 2 (take (length (group0 m) - 2) (group0 m))
      in case render text state of
           (Inl e, state1) \<Rightarrow> (Inl e, state1)
         | (Inr inner, state1) \<Rightarrow> (Inr (Strong inner), state1))"

definition parse_codespan :: "match \<Rightarrow> pstate \<Rightarrow> 'r tok res" where
  "parse_codespan m state =
     (case group m 2 of
        None \<Rightarrow> (Inl AttributeError, state)
      | Some g \<Rightarrow> (let code = collapse (strip g) in (Inr (Codespan code), state)))"

definition parse_strikethrough ::
  "(string \<Rightarrow> pstate \<Rightarrow> 'r out res) \<Rightarrow> match \<Rightarrow> pstate \<Rightarrow> 'r tok res" where
  "parse_strikethrough render m state =
     (case group m 1 of
        None \<Rightarrow> (Inl TypeError, state)
      | Some text \<Rightarrow>
          (case render text state of
             (Inl e, state1) \<Rightarrow> (Inl e, state1)
           | (Inr inner, state1) \<Rightarrow> (Inr (Strikethrough inner), state1)))"

definition parse_linebreak :: "match \<Rightarrow> pstate \<Rightarrow> 'r tok res" where
  "parse_linebreak m state = (Inr Linebreak, state)"

definition parse_inline_html :: "match \<Rightarrow> pstate \<Rightarrow> 'r tok res" where
  "parse_inline_html m state = (let html = group0 m in (Inr (InlineHtml html), state))"

definition parse_text :: "string \<Rightarrow> pstate \<Rightarrow> 'r tok res" where
  "parse_text text state = (Inr (Text text), state)"

section \<open>The scanner and the render driver\<close>

text \<open>
  Modelled from the spec: the scanner class \<open>ScannerParser\<close> (its \<open>_scan\<close>, the lookup of a
  rule's pattern and method by name, and \<open>default_rules\<close>) is not among the sources. The
  spec (4.1) gives the algorithm: every rule is searched from the cursor on, the match that
  starts earliest wins, the rule declared earlier wins a tie, the text before the match is
  a \<open>text\<close> item, the cursor moves to the end of the match, and what remains after the
  last match is a final \<open>text\<close> item.
\<close>

fun rule_pattern :: "rule \<Rightarrow> re" where
  "rule_pattern escape = ESCAPE"
| "rule_pattern inline_html = INLINE_HTML"
| "rule_pattern auto_link = AUTO_LINK"
| "rule_pattern footnote = FOOTNOTE"
| "rule_pattern std_link = STD_LINK"
| "rule_pattern ref_link = REF_LINK"
| "rule_pattern ref_link2 = REF_LINK2"
| "rule_pattern strong = STRONG"
| "rule_pattern emphasis = EMPHASIS"
| "rule_pattern codespan = CODESPAN"
| "rule_pattern strikethrough = STRIKETHROUGH"
| "rule_pattern linebreak = LINEBREAK"

fun rule_method ::
  "helpers \<Rightarrow> (string \<Rightarrow> pstate \<Rightarrow> 'r out res) \<Rightarrow> rule \<Rightarrow> match \<Rightarrow> pstate \<Rightarrow> 'r tok res" where
  "rule_method h render escape m state = parse_escape m state"
| "rule_method h render inline_html m state = parse_inline_html m state"
| "rule_method h render auto_link m state = parse_auto_link h m state"
| "rule_method h render footnote m state = parse_footnote m state"
| "rule_method h render std_link m state = parse_std_link h render m state"
| "rule_method h render ref_link m state = parse_ref_link h render m state"
| "rule_method h render ref_link2 m state = parse_ref_link2 h render m state"
| "rule_method h render strong m state = parse_strong render m state"
| "rule_method h render emphasis m state = parse_emphasis render m state"
| "rule_method h render codespan m state = parse_codespan m state"
| "rule_method h render strikethrough m state = parse_strikethrough render m state"
| "rule_method h render linebreak m state = parse_linebreak m state"

fun search_in :: "re \<Rightarrow> string \<Rightarrow> nat list \<Rightarrow> match option" where
  "search_in r s [] = None"
| "search_in r s (p # ps) =
     (case match_at r s p of Some m \<Rightarrow> Some m | None \<Rightarrow> search_in r s ps)"

definition search :: "re \<Rightarrow> string \<Rightarrow> nat \<Rightarrow> match option" where
  "search r s cursor = search_in r s [cursor..<Suc (length s)]"

fun next_match :: "rule list \<Rightarrow> string \<Rightarrow> nat \<Rightarrow> (rule \<times> match) option" where
  "next_match [] s cursor = None"
| "next_match (name # rules) s cursor =
     (case search (rule_pattern name) s cursor of
        None \<Rightarrow> next_match rules s cursor
      | Some m \<Rightarrow>
          (case next_match rules s cursor of
             None \<Rightarrow> Some (name, m)
           | Some (name', m') \<Rightarrow>
               if m_start m' < m_start m then Some (name', m') else Some (name, m)))"

text \<open>
  \<open>emit\<close> is one step of the generator in \<open>parse\<close>: the token of an action goes through
  the renderer's method. \<open>finish\<close> is the end of \<open>render\<close>: \<open>list(tokens)\<close> for a tree
  renderer, \<open>''.join(tokens)\<close> otherwise.
\<close>

definition emit :: "'r renderer \<Rightarrow> 'r tok res \<Rightarrow> 'r res" where
  "emit R t =
     (case t of
        (Inl e, state) \<Rightarrow> (Inl e, state)
      | (Inr tok, state) \<Rightarrow>
          (case get_method R tok of Inl e \<Rightarrow> (Inl e, state) | Inr v \<Rightarrow> (Inr v, state)))"

fun join_strs :: "('r \<Rightarrow> string option) \<Rightarrow> 'r list \<Rightarrow> string option" where
  "join_strs f [] = Some []"
| "join_strs f (v # vs) =
     (case f v of
        None \<Rightarrow> None
      | Some a \<Rightarrow> (case join_strs f vs of None \<Rightarrow> None | Some b \<Rightarrow> Some (a @ b)))"

definition finish :: "'r renderer \<Rightarrow> 'r list res \<Rightarrow> 'r out res" where
  "finish R t =
     (case t of
        (Inl e, state) \<Rightarrow> (Inl e, state)
      | (Inr tokens, state) \<Rightarrow>
          if IS_TREE R then (Inr (Nodes tokens), state)
          else (case join_strs (as_str R) tokens of
                  None \<Rightarrow> (Inl TypeError, state)
                | Some joined \<Rightarrow> (Inr (Str joined), state)))"

text \<open>The texts an action hands back to \<open>render\<close>.\<close>

fun inner_texts :: "rule \<Rightarrow> match \<Rightarrow> string list" where
  "inner_texts std_link m = (case group m 1 of None \<Rightarrow> [] | Some t \<Rightarrow> [t])"
| "inner_texts ref_link m = (case group m 1 of None \<Rightarrow> [] | Some t \<Rightarrow> [t])"
| "inner_texts ref_link2 m = (case group m 1 of None \<Rightarrow> [] | Some t \<Rightarrow> [t])"
| "inner_texts strikethrough m = (case group m 1 of None \<Rightarrow> [] | Some t \<Rightarrow> [t])"
| "inner_texts emphasis m = [butlast (tl (group0 m))]"
| "inner_texts strong m = [drop 2 (take (length (group0 m) - 2) (group0 m))]"
| "inner_texts name m = []"

lemma tokenize_link_cong:
  assumes "\<And>t st. text = Some t \<Longrightarrow> render t st = render' t st"
  shows "tokenize_link h render line link text title state
       = tokenize_link h render' line link text title state"
  using assms by (cases "text") (simp_all add: tokenize_link_def Let_def)

lemma rule_method_agree:
  assumes r: "\<And>t st. t \<in> set (inner_texts name m) \<Longrightarrow> render t st = render' t st"
  shows "rule_method h render name m state = rule_method h render' name m state"
proof (cases name)
  case std_link
  have "tokenize_link h render line link (group m 1) title state
      = tokenize_link h render' line link (group m 1) title state" for line link title
    by (rule tokenize_link_cong) (use r std_link in simp)
  then show ?thesis unfolding std_link rule_method.simps
    by (simp only: parse_std_link_def Let_def)
next
  case ref_link
  have "tokenize_link h render line link (group m 1) title state
      = tokenize_link h render' line link (group m 1) title state" for line link title
    by (rule tokenize_link_cong) (use r ref_link in simp)
  then show ?thesis unfolding ref_link rule_method.simps
    by (simp only: parse_ref_link_def Let_def)
next
  case ref_link2
  have "tokenize_link h render line link (group m 1) title state
      = tokenize_link h render' line link (group m 1) title state" for line link title
    by (rule tokenize_link_cong) (use r ref_link2 in simp)
  then show ?thesis unfolding ref_link2 rule_method.simps
    by (simp only: parse_ref_link2_def parse_ref_link_def Let_def)
next
  case strong
  then show ?thesis using r by (simp add: parse_strong_def)
next
  case emphasis
  then show ?thesis using r by (simp add: parse_emphasis_def)
next
  case strikethrough
  then show ?thesis using r by (simp add: parse_strikethrough_def split: option.splits)
qed simp_all

lemma rule_method_cong [fundef_cong]:
  assumes "h = h'" "name = name'" "m = m'" "state = state'"
    and "\<And>t st. t \<in> set (inner_texts name' m') \<Longrightarrow> render t st = render' t st"
  shows "rule_method h render name m state = rule_method h' render' name' m' state'"
  unfolding assms(1-4) using assms(5) by (rule rule_method_agree)

lemma search_in_Some:
  "search_in r s ps = Some m \<Longrightarrow> \<exists>p \<in> set ps. match_at r s p = Some m"
  by (induction ps) (auto split: option.splits)

lemma search_Some:
  assumes "search r s cursor = Some m"
  shows "\<exists>p. cursor \<le> p \<and> p \<le> length s \<and> match_at r s p = Some m"
  using search_in_Some[OF assms[unfolded search_def]] by auto

lemma next_match_Some:
  "next_match rules s cursor = Some (name, m) \<Longrightarrow>
     \<exists>p. cursor \<le> p \<and> p \<le> length s \<and> match_at (rule_pattern name) s p = Some m"
proof (induction rules arbitrary: name m)
  case Nil
  then show ?case by simp
next
  case (Cons a rules)
  show ?case
  proof (cases "search (rule_pattern a) s cursor")
    case None
    with Cons show ?thesis by simp
  next
    case (Some ma)
    show ?thesis
    proof (cases "next_match rules s cursor")
      case None
      with Some Cons.prems have "name = a" "m = ma" by simp_all
      with search_Some[OF Some] show ?thesis by simp
    next
      case (Some nm)
      obtain n' m' where nm: "nm = (n', m')" by (cases nm)
      show ?thesis
      proof (cases "m_start m' < m_start ma")
        case True
        with Some nm \<open>search (rule_pattern a) s cursor = Some ma\<close> Cons.prems
        have "next_match rules s cursor = Some (name, m)" by simp
        then show ?thesis by (rule Cons.IH)
      next
        case False
        with Some nm \<open>search (rule_pattern a) s cursor = Some ma\<close> Cons.prems
        have "name = a" "m = ma" by simp_all
        with search_Some[OF \<open>search (rule_pattern a) s cursor = Some ma\<close>] show ?thesis by simp
      qed
    qed
  qed
qed

lemma min_len_patterns:
  "min_len ESCAPE = 2" "min_len INLINE_HTML = 3" "min_len AUTO_LINK = 5"
  "min_len FOOTNOTE = 4" "min_len STD_LINK = 4" "min_len REF_LINK = 4"
  "min_len REF_LINK2 = 2" "min_len STRONG = 5" "min_len EMPHASIS = 3"
  "min_len CODESPAN = 2" "min_len STRIKETHROUGH = 5" "min_len LINEBREAK = 2"
  by code_simp+

lemma rule_pattern_min_len: "1 \<le> min_len (rule_pattern name)"
  by (cases name) (simp_all add: min_len_patterns)

lemma slack_patterns:
  "slack 1 STD_LINK = Some 4" "slack 1 REF_LINK = Some 4" "slack 1 REF_LINK2 = Some 2"
  "slack 1 STRIKETHROUGH = Some 4"
  by code_simp+

lemma next_match_bounds:
  assumes "next_match rules s cursor = Some (name, m)"
  shows "cursor \<le> m_start m" and "m_start m < m_end m" and "m_end m \<le> length s"
    and "length (group0 m) = m_end m - m_start m"
    and "t \<in> set (inner_texts name m) \<Longrightarrow> length t < length s"
proof -
  from next_match_Some[OF assms] obtain p where p: "cursor \<le> p" "p \<le> length s"
    "match_at (rule_pattern name) s p = Some m" by blast
  note b = match_at_bounds[OF p(3) p(2)]
  show "cursor \<le> m_start m" using b(1) p(1) by simp
  show lt: "m_start m < m_end m" using b(1,3) rule_pattern_min_len[of name] by simp
  show le: "m_end m \<le> length s" by (rule b(2))
  show len: "length (group0 m) = m_end m - m_start m" using b(1,4) by simp
  have g1: "length v < length s"
    if "group m 1 = Some v" "slack 1 (rule_pattern name) = Some i" "0 < i" for v i
    using b(5)[OF that(1)] that(2,3) le by simp
  show "length t < length s" if "t \<in> set (inner_texts name m)"
  proof (cases name)
    case std_link
    with that g1[of t 4] slack_patterns show ?thesis by (simp split: option.splits)
  next
    case ref_link
    with that g1[of t 4] slack_patterns show ?thesis by (simp split: option.splits)
  next
    case ref_link2
    with that g1[of t 2] slack_patterns show ?thesis by (simp split: option.splits)
  next
    case strikethrough
    with that g1[of t 4] slack_patterns show ?thesis by (simp split: option.splits)
  next
    case emphasis
    with that len lt le show ?thesis by simp
  next
    case strong
    with that len lt le show ?thesis by simp
  qed (use that in simp_all)
qed

lemma next_match_progress:
  assumes "next_match rules s cursor = Some (name, m)"
  shows "length s - m_end m < length s - cursor"
  using next_match_bounds(1-3)[OF assms] by simp

text \<open>
  \<open>emit_hole\<close> emits the text before a match (or after the last one) when it is not
  empty. \<open>parse_from\<close> runs the generators of \<open>_scan\<close> and \<open>parse\<close> from a cursor to the end of
  the text, in the order in which \<open>render\<close> consumes them: for each item the action first,
  then the renderer's method; the first exception ends the run and leaves the state as it
  is at that moment. An action that parses text again calls \<open>render\<close> with the default
  rules, whatever rules the outer call was given.
\<close>

definition emit_hole :: "'r renderer \<Rightarrow> string \<Rightarrow> pstate \<Rightarrow> 'r list res" where
  "emit_hole R hole state =
     (if hole = [] then (Inr [], state)
      else (case emit R (parse_text hole state) of
              (Inl e, state1) \<Rightarrow> (Inl e, state1)
            | (Inr v, state1) \<Rightarrow> (Inr [v], state1)))"

function parse_from ::
  "helpers \<Rightarrow> 'r renderer \<Rightarrow> rule list \<Rightarrow> string \<Rightarrow> nat \<Rightarrow> pstate \<Rightarrow> 'r list res" where
  "parse_from h R rules s cursor state =
     (case next_match rules s cursor of
        None \<Rightarrow> emit_hole R (drop cursor s) state
      | Some (name, m) \<Rightarrow>
          (case emit_hole R (take (m_start m - cursor) (drop cursor s)) state of
             (Inl e, state1) \<Rightarrow> (Inl e, state1)
           | (Inr vs, state1) \<Rightarrow>
               (case emit R (rule_method h
                       (\<lambda>t st. finish R (parse_from h R RULE_NAMES t 0 st)) name m state1) of
                  (Inl e, state2) \<Rightarrow> (Inl e, state2)
                | (Inr v, state2) \<Rightarrow>
                    (case parse_from h R rules s (m_end m) state2 of
                       (Inl e, state3) \<Rightarrow> (Inl e, state3)
                     | (Inr vs', state3) \<Rightarrow> (Inr (vs @ v # vs'), state3)))))"
  by pat_completeness auto
termination
proof (relation "measures [\<lambda>(h, R, rules, s, cursor, state). length s,
                             \<lambda>(h, R, rules, s, cursor, state). length s - cursor]",
       goal_cases)
  case 1
  show ?case by simp
next
  case 2
  then show ?case by (auto dest: next_match_bounds(5))
next
  case 3
  then show ?case by (auto dest: next_match_progress)
qed

text \<open>
  A rule that matches at the cursor itself is found by \<open>search\<close>, and the first rule of the
  list wins there; at the end of the text nothing matches, every pattern consumes at least
  one character.
\<close>

lemma search_at:
  assumes "match_at r s cursor = Some m" "cursor \<le> length s"
  shows "search r s cursor = Some m"
proof -
  have "[cursor..<Suc (length s)] = cursor # [Suc cursor..<Suc (length s)]"
    using assms(2) by (simp add: upt_conv_Cons)
  then show ?thesis using assms(1) by (simp add: search_def)
qed

lemma next_match_first:
  assumes "match_at (rule_pattern name) s cursor = Some m" "cursor \<le> length s"
  shows "next_match (name # rules) s cursor = Some (name, m)"
proof -
  have s: "search (rule_pattern name) s cursor = Some m" using assms by (rule search_at)
  have st: "m_start m = cursor" using match_at_bounds(1)[OF assms] .
  show ?thesis
  proof (cases "next_match rules s cursor")
    case None
    with s show ?thesis by simp
  next
    case (Some nm)
    obtain n' m' where nm: "nm = (n', m')" by (cases nm)
    have "cursor \<le> m_start m'" using next_match_bounds(1)[OF Some[unfolded nm]] .
    with s Some nm st show ?thesis by simp
  qed
qed

lemma next_match_end: "next_match rules s (length s) = None"
proof (cases "next_match rules s (length s)")
  case (Some nm)
  obtain n' m' where nm: "nm = (n', m')" by (cases nm)
  from next_match_bounds(1-3)[OF Some[unfolded nm]] show ?thesis by simp
qed simp

lemma parse_from_end: "parse_from h R rules s (length s) state = (Inr [], state)"
  by (subst parse_from.simps) (simp add: next_match_end emit_hole_def)

definition default_rules :: "rule list" where
  "default_rules = RULE_NAMES"

definition parse ::
  "helpers \<Rightarrow> 'r renderer \<Rightarrow> string \<Rightarrow> pstate \<Rightarrow> rule list option \<Rightarrow> 'r list res" where
  "parse h R s state rules =
     parse_from h R (case rules of None \<Rightarrow> default_rules | Some rs \<Rightarrow> rs) s 0 state"

definition render ::
  "helpers \<Rightarrow> 'r renderer \<Rightarrow> string \<Rightarrow> pstate \<Rightarrow> rule list option \<Rightarrow> 'r out res" where
  "render h R s state rules = finish R (parse h R s state rules)"

text \<open>A tree renderer whose output for a token is the token itself.\<close>

datatype ast = Ast "ast tok"

definition ast_renderer :: "ast renderer" where
  "ast_renderer = \<lparr>IS_TREE = True, get_method = (\<lambda>t. Inr (Ast t)), as_str = (\<lambda>v. None)\<rparr>"

text \<open>
  A renderer without a \<open>strikethrough\<close> method (that construct is optional in renderers):
  looking the method up raises \<open>AttributeError\<close>.
\<close>

definition core_renderer :: "ast renderer" where
  "core_renderer =
     \<lparr>IS_TREE = True,
      get_method = (\<lambda>t. case t of Strikethrough inner \<Rightarrow> Inl AttributeError | _ \<Rightarrow> Inr (Ast t)),
      as_str = (\<lambda>v. None)\<rparr>"

text \<open>Concrete helpers and states for the examples.\<close>

definition example_escape_url :: "string \<Rightarrow> string" where
  "example_escape_url s =
     concat (map (\<lambda>c. if c = DQ then ''%22'' else if c = CHR '' '' then ''%20'' else [c]) s)"

definition example_helpers :: helpers where
  "example_helpers = \<lparr>escape_url = example_escape_url, unikey = lower\<rparr>"

definition empty_state :: pstate where
  "empty_state = \<lparr>def_links = None, def_footnotes = None, footnote_index = None,
                   footnotes = None, in_link = None\<rparr>"

definition footnote_state :: pstate where
  "footnote_state = \<lparr>def_links = Some [], def_footnotes = Some [''a'', ''b''],
                      footnote_index = None, footnotes = Some [], in_link = None\<rparr>"

section \<open>Footnote references\<close>

lemma parse_footnote_valid:
  assumes "group m 1 = Some g" and "def_footnotes state = Some df" and "lower g \<in> set df"
    and "footnotes state = Some fs"
  shows "parse_footnote m state =
     (Inr (FootnoteRef (lower g) ((case footnote_index state of None \<Rightarrow> 0 | Some i \<Rightarrow> i) + 1)),
      state\<lparr>footnote_index := Some ((case footnote_index state of None \<Rightarrow> 0 | Some i \<Rightarrow> i) + 1),
            footnotes := Some (fs @ [lower g])\<rparr>)"
proof -
  have "df \<noteq> []" using assms(3) by auto
  then show ?thesis using assms by (simp add: parse_footnote_def Let_def)
qed

lemma footnote_example:
  "render h ast_renderer ''[^a] text [^b] more [^a]'' footnote_state None =
     (Inr (Nodes [Ast (FootnoteRef ''a'' 1), Ast (Text '' text ''), Ast (FootnoteRef ''b'' 2),
                  Ast (Text '' more ''), Ast (FootnoteRef ''a'' 3)]),
      footnote_state\<lparr>footnote_index := Some 3, footnotes := Some [''a'', ''b'', ''a'']\<rparr>)"
  by code_simp

text \<open>
  C1, as stated, fails: in the example of the claim the second \<open>[^a]\<close> gets index 3, not
  the index 1 of the first one, and \<open>a\<close> is appended to \<open>footnotes\<close> a second time.
\<close>

theorem C1_counterexample:
  "render example_helpers ast_renderer ''[^a] text [^b] more [^a]'' footnote_state None =
     (Inr (Nodes [Ast (FootnoteRef ''a'' 1), Ast (Text '' text ''), Ast (FootnoteRef ''b'' 2),
                  Ast (Text '' more ''), Ast (FootnoteRef ''a'' 3)]),
      footnote_state\<lparr>footnote_index := Some 3, footnotes := Some [''a'', ''b'', ''a'']\<rparr>)
   \<and> FootnoteRef ''a'' 3 \<noteq> (FootnoteRef ''a'' 1 :: ast tok)
   \<and> [''a'', ''b'', ''a''] \<noteq> [''a'', ''b'']"
  using footnote_example[of example_helpers] by simp

text \<open>
  C1 (amended): every occurrence of a valid footnote key, the first one and every later
  one alike, is assigned the next sequential index (the counter starts at 0, so the first
  index is 1), the counter is stored and the key is appended to \<open>footnotes\<close>; no index is
  reused. In the example the three references get the indices 1, 2 and 3.
\<close>

theorem C1_footnote_index:
  "(group m 1 = Some g \<and> def_footnotes state = Some df \<and> lower g \<in> set df
      \<and> footnotes state = Some fs \<longrightarrow>
    (parse_footnote m state :: 'r tok res) =
      (Inr (FootnoteRef (lower g) ((case footnote_index state of None \<Rightarrow> 0 | Some i \<Rightarrow> i) + 1)),
       state\<lparr>footnote_index := Some ((case footnote_index state of None \<Rightarrow> 0 | Some i \<Rightarrow> i) + 1),
             footnotes := Some (fs @ [lower g])\<rparr>))
   \<and> render h ast_renderer ''[^a] text [^b] more [^a]'' footnote_state None =
       (Inr (Nodes [Ast (FootnoteRef ''a'' 1), Ast (Text '' text ''), Ast (FootnoteRef ''b'' 2),
                    Ast (Text '' more ''), Ast (FootnoteRef ''a'' 3)]),
        footnote_state\<lparr>footnote_index := Some 3, footnotes := Some [''a'', ''b'', ''a'']\<rparr>)"
  using parse_footnote_valid[of m g state df fs] footnote_example[of h] by blast

theorem C1_footnote_index_witness:
  "(parse_footnote \<lparr>m_start = 0, m_end = 4, group0 = ''[^a]'', groups = [(1, ''a'')]\<rparr>
      (footnote_state\<lparr>footnote_index := Some 2, footnotes := Some [''a'', ''b'']\<rparr>) :: ast tok res) =
     (Inr (FootnoteRef ''a'' 3),
      footnote_state\<lparr>footnote_index := Some 3, footnotes := Some [''a'', ''b'', ''a'']\<rparr>)"
proof -
  let ?m = "\<lparr>m_start = 0, m_end = 4, group0 = ''[^a]'', groups = [(1, ''a'')]\<rparr>"
  let ?st = "footnote_state\<lparr>footnote_index := Some 2, footnotes := Some [''a'', ''b'']\<rparr>"
  have 1: "group ?m 1 = Some ''a''" by (simp add: group_def)
  have 2: "def_footnotes ?st = Some [''a'', ''b'']" by (simp add: footnote_state_def)
  have 3: "lower ''a'' = ''a''" by code_simp
  have 4: "footnotes ?st = Some [''a'', ''b'']" by simp
  have "(parse_footnote ?m ?st :: ast tok res) =
      (Inr (FootnoteRef (lower ''a'') ((case footnote_index ?st of None \<Rightarrow> 0 | Some i \<Rightarrow> i) + 1)),
       ?st\<lparr>footnote_index := Some ((case footnote_index ?st of None \<Rightarrow> 0 | Some i \<Rightarrow> i) + 1),
            footnotes := Some ([''a'', ''b''] @ [lower ''a''])\<rparr>)"
    using C1_footnote_index[where 'r = ast, of ?m "''a''" ?st "[''a'', ''b'']" "[''a'', ''b'']"]
      1 2 3 4 by simp
  then show ?thesis by (simp add: 3 footnote_state_def)
qed

section \<open>Escapes\<close>

text \<open>
  The ASCII punctuation characters in the words of the specification, by code point: the
  printable ASCII characters that are neither the space, a digit nor a letter (\<open>!\<close> to
  \<open>/\<close>, \<open>:\<close> to \<open>@\<close>, \<open>[\<close> to \<open>`\<close>, \<open>{\<close> to \<open>~\<close>). The class \<open>PUNCTUATION\<close> of the source
  lists 32 characters; \<open>PUNCTUATION_ascii\<close> shows that they are exactly these.
\<close>

definition ascii_punctuation :: "char \<Rightarrow> bool" where
  "ascii_punctuation c =
     (let n = code c
      in (33 \<le> n \<and> n \<le> 47) \<or> (58 \<le> n \<and> n \<le> 64) \<or> (91 \<le> n \<and> n \<le> 96) \<or> (123 \<le> n \<and> n \<le> 126))"

lemma PUNCTUATION_all: "\<forall>c. cset_has PUNCTUATION c = ascii_punctuation c"
  by code_simp

lemma PUNCTUATION_ascii: "cset_has PUNCTUATION c = ascii_punctuation c"
  using PUNCTUATION_all by blast

lemma ESCAPE_complete:
  assumes "drop p s = BSL # c # r" "ascii_punctuation c"
  shows "match_at ESCAPE s p
           = Some \<lparr>m_start = p, m_end = p + 2, group0 = [BSL, c], groups = []\<rparr>"
proof -
  have len: "length s - p = Suc (Suc (length r))"
    using arg_cong[OF assms(1), of length] by simp
  then have 1: "length s - length r = p + 2" "length s - length r - p = 2" by simp_all
  show ?thesis
    using assms 1 by (simp add: match_at_def ESCAPE_def step1_def PUNCTUATION_ascii)
qed

lemma ESCAPE_match:
  assumes "match_at ESCAPE s p = Some m"
  shows "\<exists>c. cset_has PUNCTUATION c \<and> group0 m = [BSL, c]"
proof -
  let ?s0 = "\<lparr>seen = rev (take p s), rest = drop p s, caps = []\<rparr>"
  from assms obtain s' ss where s': "rmatch ESCAPE ?s0 = s' # ss"
    and m: "group0 m = take (length s - length (rest s') - p) (drop p s)"
    by (auto simp: match_at_def split: list.splits)
  have mem: "s' \<in> set (rmatch ESCAPE ?s0)" using s' by simp
  have "\<exists>c r. drop p s = BSL # c # r \<and> cset_has PUNCTUATION c \<and> rest s' = r"
  proof (cases "drop p s")
    case Nil
    with mem show ?thesis by (simp add: ESCAPE_def step1_def)
  next
    case outer: (Cons a as)
    show ?thesis
    proof (cases as)
      case Nil
      with outer mem show ?thesis by (simp add: ESCAPE_def step1_def split: if_splits)
    next
      case (Cons b bs)
      with outer mem show ?thesis by (auto simp: ESCAPE_def step1_def split: if_splits)
    qed
  qed
  then obtain c r where c: "drop p s = BSL # c # r" "cset_has PUNCTUATION c" "rest s' = r"
    by blast
  have "length s - p = Suc (Suc (length r))"
    using arg_cong[OF c(1), of length] by simp
  then have "length s - length (rest s') - p = 2" using c(3) by simp
  then show ?thesis using m c by simp
qed

text \<open>
  The other direction: at a backslash followed by a punctuation character the pattern
  matches exactly these two characters, the scanner picks the escape rule there whatever
  the other rules would match (it is the first rule), and the scan goes on behind the
  two characters.
\<close>

lemma parse_from_escape:
  assumes "drop p s = BSL # c # r" "ascii_punctuation c"
  shows "parse_from h R (escape # rules) s p state =
     (case get_method R (Text [c]) of
        Inl e \<Rightarrow> (Inl e, state)
      | Inr v \<Rightarrow>
          (case parse_from h R (escape # rules) s (p + 2) state of
             (Inl e, state3) \<Rightarrow> (Inl e, state3)
           | (Inr vs, state3) \<Rightarrow> (Inr (v # vs), state3)))"
proof -
  let ?m = "\<lparr>m_start = p, m_end = p + 2, group0 = [BSL, c], groups = []\<rparr>"
  have p: "p \<le> length s" using assms(1) by (cases "p \<le> length s") simp_all
  have m: "match_at (rule_pattern escape) s p = Some ?m"
    using ESCAPE_complete[OF assms] by simp
  have nm: "next_match (escape # rules) s p = Some (escape, ?m)"
    using m p by (rule next_match_first)
  show ?thesis
    apply (subst parse_from.simps)
    apply (simp only: nm option.case prod.case)
    apply (simp del: parse_from.simps next_match.simps
             add: emit_hole_def emit_def parse_escape_def split: sum.splits prod.splits)
    done
qed

lemma render_escape:
  assumes "ascii_punctuation c"
  shows "render h ast_renderer [BSL, c] state None = (Inr (Nodes [Ast (Text [c])]), state)"
proof -
  have "parse_from h ast_renderer RULE_NAMES [BSL, c] 2 state = (Inr [], state)"
    using parse_from_end[of h ast_renderer RULE_NAMES "[BSL, c]" state]
    by (simp del: parse_from.simps add: numeral_2_eq_2)
  moreover have "RULE_NAMES = escape # tl RULE_NAMES" by (simp add: RULE_NAMES_def)
  ultimately have "parse_from h ast_renderer RULE_NAMES [BSL, c] 0 state
      = (Inr [Ast (Text [c])], state)"
    using parse_from_escape[of 0 "[BSL, c]" c "[]" h ast_renderer "tl RULE_NAMES" state] assms
    by (simp del: parse_from.simps add: ast_renderer_def numeral_2_eq_2)
  then show ?thesis
    by (simp add: render_def parse_def default_rules_def finish_def ast_renderer_def)
qed

lemma escape_example:
  "render h ast_renderer [BSL, CHR ''*''] state None = (Inr (Nodes [Ast (Text ''*'')]), state)"
  by code_simp

text \<open>
  C9: for every ASCII punctuation character \<open>c\<close>, and only for those, the escape pattern
  matches a backslash followed by \<open>c\<close>; at such a place of any text the scanner takes the
  escape rule, whose action strips the backslash and emits \<open>Text(c)\<close> with the state
  unchanged, and the scan continues after the two characters. Whatever the escape rule
  matches is a backslash followed by one punctuation character. Parsing a backslash
  followed by \<open>c\<close> yields the single token \<open>Text(c)\<close>; in particular a backslash followed by
  \<open>*\<close> yields the single token \<open>Text("*")\<close>, not an emphasis.
\<close>

theorem C9_escape:
  "(ascii_punctuation c \<longrightarrow>
      cset_has PUNCTUATION c
    \<and> (drop p s = BSL # c # r \<longrightarrow>
         match_at ESCAPE s p
           = Some \<lparr>m_start = p, m_end = p + 2, group0 = [BSL, c], groups = []\<rparr>
       \<and> parse_from h R RULE_NAMES s p state =
           (case get_method R (Text [c]) of
              Inl e \<Rightarrow> (Inl e, state)
            | Inr v \<Rightarrow>
                (case parse_from h R RULE_NAMES s (p + 2) state of
                   (Inl e, state') \<Rightarrow> (Inl e, state')
                 | (Inr vs, state') \<Rightarrow> (Inr (v # vs), state'))))
    \<and> (parse_escape \<lparr>m_start = p, m_end = p + 2, group0 = [BSL, c], groups = []\<rparr> state
          :: 'r tok res) = (Inr (Text [c]), state)
    \<and> render h ast_renderer [BSL, c] state None = (Inr (Nodes [Ast (Text [c])]), state))
   \<and> (cset_has PUNCTUATION c \<longrightarrow> ascii_punctuation c)
   \<and> (match_at ESCAPE s p = Some m \<longrightarrow>
        (\<exists>c. cset_has PUNCTUATION c \<and> group0 m = [BSL, c]
           \<and> (parse_escape m state :: 'r tok res) = (Inr (Text [c]), state)))
   \<and> render h ast_renderer [BSL, CHR ''*''] state None = (Inr (Nodes [Ast (Text ''*'')]), state)"
  (is "(_ \<longrightarrow> ?A \<and> (_ \<longrightarrow> ?B \<and> ?C) \<and> ?D \<and> ?E) \<and> ?F \<and> (_ \<longrightarrow> ?G) \<and> ?H")
proof -
  have rn: "RULE_NAMES = escape # tl RULE_NAMES" by (simp add: RULE_NAMES_def)
  have A: ?A if "ascii_punctuation c" using that by (simp add: PUNCTUATION_ascii)
  have B: ?B if "ascii_punctuation c" "drop p s = BSL # c # r"
    using that(2,1) by (rule ESCAPE_complete)
  have C: ?C if "ascii_punctuation c" "drop p s = BSL # c # r"
    by (subst (1 2) rn) (rule parse_from_escape[OF that(2,1)])
  have D: ?D by (simp add: parse_escape_def)
  have E: ?E if "ascii_punctuation c" using that by (rule render_escape)
  have F: ?F by (simp add: PUNCTUATION_ascii)
  have G: ?G if "match_at ESCAPE s p = Some m"
  proof -
    from ESCAPE_match[OF that] obtain c where "cset_has PUNCTUATION c" "group0 m = [BSL, c]"
      by blast
    then show ?thesis by (auto simp: parse_escape_def)
  qed
  have H: ?H by (rule escape_example)
  from A B C D E F G H show ?thesis by blast
qed

theorem C9_escape_witness:
  "ascii_punctuation CHR ''*''
   \<and> drop 0 [BSL, CHR ''*''] = BSL # CHR ''*'' # []
   \<and> match_at ESCAPE [BSL, CHR ''*''] 0
       = Some \<lparr>m_start = 0, m_end = 2, group0 = [BSL, CHR ''*''], groups = []\<rparr>
   \<and> parse_from example_helpers ast_renderer RULE_NAMES [BSL, CHR ''*''] 0 empty_state
       = (Inr [Ast (Text ''*'')], empty_state)
   \<and> (\<exists>c. cset_has PUNCTUATION c
        \<and> (parse_escape \<lparr>m_start = 0, m_end = 2, group0 = [BSL, CHR ''*''], groups = []\<rparr>
              empty_state :: ast tok res) = (Inr (Text [c]), empty_state))"
proof -
  let ?s = "[BSL, CHR ''*'']"
  let ?m = "\<lparr>m_start = 0, m_end = 2, group0 = ?s, groups = []\<rparr>"
  have 1: "ascii_punctuation CHR ''*''" by code_simp
  have 2: "drop 0 ?s = BSL # CHR ''*'' # []" by simp
  have 3: "parse_from example_helpers ast_renderer RULE_NAMES ?s (0 + 2) empty_state
             = (Inr [], empty_state)"
    using parse_from_end[of example_helpers ast_renderer RULE_NAMES ?s empty_state]
    by (simp del: parse_from.simps add: numeral_2_eq_2)
  have 4: "get_method ast_renderer (Text ''*'') = Inr (Ast (Text ''*''))"
    by (simp add: ast_renderer_def)
  note t = C9_escape[where 'r = ast, of "CHR ''*''" 0 ?s "[]" example_helpers ast_renderer
             empty_state ?m]
  have 5: "match_at ESCAPE ?s 0 = Some ?m" using t 1 2 by simp
  have 6: "parse_from example_helpers ast_renderer RULE_NAMES ?s 0 empty_state
             = (Inr [Ast (Text ''*'')], empty_state)"
  proof -
    from t 1 2 have "parse_from example_helpers ast_renderer RULE_NAMES ?s 0 empty_state =
           (case get_method ast_renderer (Text ''*'') of
              Inl e \<Rightarrow> (Inl e, empty_state)
            | Inr v \<Rightarrow>
                (case parse_from example_helpers ast_renderer RULE_NAMES ?s (0 + 2) empty_state of
                   (Inl e, state') \<Rightarrow> (Inl e, state')
                 | (Inr vs, state') \<Rightarrow> (Inr (v # vs), state')))"
      by blast
    then show ?thesis unfolding 3 4 by simp
  qed
  from t 5 have 7: "\<exists>c. cset_has PUNCTUATION c \<and> group0 ?m = [BSL, c]
         \<and> (parse_escape ?m empty_state :: ast tok res) = (Inr (Text [c]), empty_state)"
    by blast
  from 1 2 5 6 7 show ?thesis by blast
qed

section \<open>Autolinks and URL escaping\<close>

text \<open>
  C4: the code at the failing input. The body \<open>http://user@example.com\<close> carries the
  explicit scheme \<open>http\<close> and contains \<open>@\<close>; the action tests for the prefix \<open>mailto:\<close>
  only and prefixes the destination with \<open>mailto:\<close>.
\<close>

theorem C4_auto_link_scheme:
  "render h ast_renderer ''<http://user@example.com>'' state None =
     (Inr (Nodes [Ast (Link (escape_url h ''mailto:http://user@example.com'')
                     (Str ''http://user@example.com'') None)]), state)"
  by code_simp

text \<open>
  C5: the code at the failing input. The destination of an image is handed to the
  renderer as it is, while the same destination in a link goes through \<open>escape_url\<close>: with
  a helper that escapes the double quote, the image keeps the raw quote.
\<close>

theorem C5_image_not_escaped:
  "render example_helpers ast_renderer (''![a](x'' @ [DQ] @ ''y)'') empty_state None =
     (Inr (Nodes [Ast (tok.Image (''x'' @ [DQ] @ ''y'') (Some ''a'') None)]), empty_state)
   \<and> render example_helpers ast_renderer (''[a](x'' @ [DQ] @ ''y)'') empty_state None =
     (Inr (Nodes [Ast (Link ''x%22y'' (Nodes [Ast (Text ''a'')]) None)]),
      empty_state\<lparr>in_link := Some False\<rparr>)
   \<and> escape_url example_helpers (''x'' @ [DQ] @ ''y'') = ''x%22y''"
  by code_simp

section \<open>Images\<close>

lemma parse_std_link_image:
  assumes "group0 m = CHR ''!'' # r" and "group m 2 = Some g2"
  shows "parse_std_link h rnd m state =
     (Inr (tok.Image
            (if startswith (unescape g2) ''<'' \<and> endswith (unescape g2) ''>''
             then butlast (tl (unescape g2)) else unescape g2)
            (group m 1)
            (case group m 3 of
               None \<Rightarrow> None
             | Some t \<Rightarrow> if t = [] then Some t else Some (unescape (butlast (tl t))))),
      state)"
  using assms by (simp add: parse_std_link_def Let_def)

lemma parse_ref_link_image:
  assumes "group0 m = CHR ''!'' # r"
    and "(case group m 2 of None \<Rightarrow> group m 1 | Some g \<Rightarrow> if g = [] then group m 1 else Some g)
           = Some k"
    and "def_links state = Some dl" and "map_of dl (unikey h k) = Some (link0, title0)"
  shows "parse_ref_link h rnd m state =
     (Inr (tok.Image (unescape link0) (group m 1)
            (case title0 of
               None \<Rightarrow> None
             | Some t \<Rightarrow> if t = [] then Some t else Some (unescape t))),
      state)"
proof -
  have "dl \<noteq> []" using assms(4) by auto
  then show ?thesis using assms by (simp add: parse_ref_link_def Let_def del: One_nat_def)
qed

lemma image_in_link_example:
  "render h ast_renderer ''[x ![a](u2) y](u1)'' empty_state None =
     (Inr (Nodes [Ast (Link (escape_url h ''u1'')
                    (Nodes [Ast (Text ''x ''), Ast (tok.Image ''u2'' (Some ''a'') None),
                            Ast (Text '' y'')]) None)]),
      empty_state\<lparr>in_link := Some False\<rparr>)"
  by code_simp

text \<open>
  C10: a match that starts with \<open>!\<close> yields an \<open>Image\<close> token, in standard form and, when
  the key resolves, in reference form. Its alt text is group 1 of the match as it stands.
  The token and the state are the same for every \<open>render\<close> function and every value of the
  guard: \<open>render\<close> is not called, \<open>in_link\<close> is neither read nor written, the state is
  returned unchanged. An image inside the text of a link is emitted as an \<open>Image\<close>.
\<close>

theorem C10_image:
  "(group0 m = CHR ''!'' # r \<and> group m 2 = Some g2 \<longrightarrow>
      (\<exists>link title. \<forall>rnd b.
          (parse_std_link h rnd m (state\<lparr>in_link := b\<rparr>) :: 'r tok res)
            = (Inr (tok.Image link (group m 1) title), state\<lparr>in_link := b\<rparr>)))
   \<and> (group0 m = CHR ''!'' # r
        \<and> (case group m 2 of None \<Rightarrow> group m 1 | Some g \<Rightarrow> if g = [] then group m 1 else Some g)
            = Some k
        \<and> def_links state = Some dl \<and> map_of dl (unikey h k) = Some (link0, title0) \<longrightarrow>
      (\<exists>link title. \<forall>rnd b.
          (parse_ref_link h rnd m (state\<lparr>in_link := b\<rparr>) :: 'r tok res)
            = (Inr (tok.Image link (group m 1) title), state\<lparr>in_link := b\<rparr>)))
   \<and> render h ast_renderer ''[x ![a](u2) y](u1)'' empty_state None =
       (Inr (Nodes [Ast (Link (escape_url h ''u1'')
                      (Nodes [Ast (Text ''x ''), Ast (tok.Image ''u2'' (Some ''a'') None),
                              Ast (Text '' y'')]) None)]),
        empty_state\<lparr>in_link := Some False\<rparr>)"
proof (intro conjI impI)
  assume a: "group0 m = CHR ''!'' # r \<and> group m 2 = Some g2"
  show "\<exists>link title. \<forall>rnd b.
          (parse_std_link h rnd m (state\<lparr>in_link := b\<rparr>) :: 'r tok res)
            = (Inr (tok.Image link (group m 1) title), state\<lparr>in_link := b\<rparr>)"
    using parse_std_link_image[of m r g2 h] a by blast
next
  assume a: "group0 m = CHR ''!'' # r
        \<and> (case group m 2 of None \<Rightarrow> group m 1 | Some g \<Rightarrow> if g = [] then group m 1 else Some g)
            = Some k
        \<and> def_links state = Some dl \<and> map_of dl (unikey h k) = Some (link0, title0)"
  have "(parse_ref_link h rnd m (state\<lparr>in_link := b\<rparr>) :: 'r tok res) =
     (Inr (tok.Image (unescape link0) (group m 1)
            (case title0 of
               None \<Rightarrow> None
             | Some t \<Rightarrow> if t = [] then Some t else Some (unescape t))),
      state\<lparr>in_link := b\<rparr>)" for rnd b
    by (rule parse_ref_link_image[of m r k _ dl h link0 title0]) (use a in simp_all)
  then show "\<exists>link title. \<forall>rnd b.
          (parse_ref_link h rnd m (state\<lparr>in_link := b\<rparr>) :: 'r tok res)
            = (Inr (tok.Image link (group m 1) title), state\<lparr>in_link := b\<rparr>)"
    by blast
next
  show "render h ast_renderer ''[x ![a](u2) y](u1)'' empty_state None =
       (Inr (Nodes [Ast (Link (escape_url h ''u1'')
                      (Nodes [Ast (Text ''x ''), Ast (tok.Image ''u2'' (Some ''a'') None),
                              Ast (Text '' y'')]) None)]),
        empty_state\<lparr>in_link := Some False\<rparr>)"
    by (rule image_in_link_example)
qed

definition image_match :: match where
  "image_match = \<lparr>m_start = 0, m_end = 7, group0 = ''![a](u)'', groups = [(2, ''u''), (1, ''a'')]\<rparr>"

definition ref_image_match :: match where
  "ref_image_match = \<lparr>m_start = 0, m_end = 7, group0 = ''![a][k]'', groups = [(2, ''k''), (1, ''a'')]\<rparr>"

definition link_state :: pstate where
  "link_state = \<lparr>def_links = Some [(''k'', (''u'', None))], def_footnotes = None,
                  footnote_index = None, footnotes = None, in_link = Some True\<rparr>"

theorem C10_image_witness:
  "(\<exists>link title. \<forall>rnd b.
       (parse_std_link example_helpers rnd image_match (link_state\<lparr>in_link := b\<rparr>) :: ast tok res)
         = (Inr (tok.Image link (Some ''a'') title), link_state\<lparr>in_link := b\<rparr>))
   \<and> (\<exists>link title. \<forall>rnd b.
       (parse_ref_link example_helpers rnd ref_image_match (link_state\<lparr>in_link := b\<rparr>) :: ast tok res)
         = (Inr (tok.Image link (Some ''a'') title), link_state\<lparr>in_link := b\<rparr>))"
proof -
  have 1: "group0 image_match = CHR ''!'' # ''[a](u)'' \<and> group image_match 2 = Some ''u''"
    by (simp add: image_match_def group_def)
  have 2: "group image_match 1 = Some ''a''" by (simp add: image_match_def group_def)
  have 3: "group0 ref_image_match = CHR ''!'' # ''[a][k]''
        \<and> (case group ref_image_match 2 of None \<Rightarrow> group ref_image_match 1
            | Some g \<Rightarrow> if g = [] then group ref_image_match 1 else Some g) = Some ''k''
        \<and> def_links link_state = Some [(''k'', (''u'', None))]
        \<and> map_of [(''k'', (''u'', None :: string option))] (unikey example_helpers ''k'')
             = Some (''u'', None)"
    by (simp add: ref_image_match_def group_def link_state_def example_helpers_def lower_def
          lower_char_def code_def)
  have 4: "group ref_image_match 1 = Some ''a''" by (simp add: ref_image_match_def group_def)
  note c = C10_image[where 'r = ast and h = example_helpers and state = link_state]
  have a: "\<exists>link title. \<forall>rnd b.
       (parse_std_link example_helpers rnd image_match (link_state\<lparr>in_link := b\<rparr>) :: ast tok res)
         = (Inr (tok.Image link (group image_match 1) title), link_state\<lparr>in_link := b\<rparr>)"
    using c[of image_match "''[a](u)''" "''u''"] 1 by blast
  have b: "\<exists>link title. \<forall>rnd b.
       (parse_ref_link example_helpers rnd ref_image_match (link_state\<lparr>in_link := b\<rparr>) :: ast tok res)
         = (Inr (tok.Image link (group ref_image_match 1) title), link_state\<lparr>in_link := b\<rparr>)"
    using c[of ref_image_match "''[a][k]''" _ "''k''" "[(''k'', (''u'', None))]" "''u''" None] 3
    by blast
  show ?thesis using a b unfolding 2 4 by blast
qed

section \<open>Unresolved references\<close>

lemma unescape_no_backslash: "BSL \<notin> set s \<Longrightarrow> unescape s = s"
  by (induction s rule: unescape.induct) auto

lemma parse_ref_link_unresolved:
  assumes "(case group m 2 of None \<Rightarrow> group m 1 | Some g \<Rightarrow> if g = [] then group m 1 else Some g)
             = Some k"
    and "def_links state = None \<or> def_links state = Some []
         \<or> (\<exists>dl. def_links state = Some dl \<and> map_of dl (unikey h k) = None)"
  shows "parse_ref_link h rnd m state = (Inr (Text (unescape (group0 m))), state)"
  using assms by (auto simp: parse_ref_link_def Let_def simp del: One_nat_def)

lemma parse_footnote_unresolved:
  assumes "group m 1 = Some g"
    and "def_footnotes state = None \<or> def_footnotes state = Some []
         \<or> (\<exists>df. def_footnotes state = Some df \<and> lower g \<notin> set df)"
  shows "parse_footnote m state = (Inr (Text (group0 m)), state)"
  using assms by (auto simp: parse_footnote_def Let_def)

lemma ref_fallback_example:
  "render h ast_renderer ''[foo]'' (empty_state\<lparr>def_links := Some []\<rparr>) None =
     (Inr (Nodes [Ast (Text ''[foo]'')]), empty_state\<lparr>def_links := Some []\<rparr>)"
  by code_simp

text \<open>
  C6, as stated, fails: the source \<open>[foo\*]\<close> of an unresolved reference link is not
  reproduced, the token is \<open>Text("[foo*]")\<close>.
\<close>

theorem C6_counterexample:
  "render example_helpers ast_renderer (''[foo'' @ [BSL] @ ''*]'')
       (empty_state\<lparr>def_links := Some []\<rparr>) None =
     (Inr (Nodes [Ast (Text ''[foo*]'')]), empty_state\<lparr>def_links := Some []\<rparr>)
   \<and> ''[foo*]'' \<noteq> ''[foo'' @ [BSL] @ ''*]''"
  by code_simp

text \<open>
  C6 (amended): a reference link whose key is absent from \<open>def_links\<close> (a missing or an
  empty table included) raises no error, leaves the state unchanged and yields a \<open>Text\<close>
  token with the matched source in which every backslash before a punctuation character
  is removed; that is the source itself when it holds no backslash. A footnote reference
  whose key is absent from \<open>def_footnotes\<close> yields \<open>Text\<close> of the matched source, unchanged.
  With empty \<open>def_links\<close>, \<open>[foo]\<close> yields \<open>Text("[foo]")\<close>.
\<close>

theorem C6_unresolved:
  "((case group m 2 of None \<Rightarrow> group m 1 | Some g \<Rightarrow> if g = [] then group m 1 else Some g)
        = Some k
      \<and> (def_links state = None \<or> def_links state = Some []
          \<or> (\<exists>dl. def_links state = Some dl \<and> map_of dl (unikey h k) = None)) \<longrightarrow>
      (parse_ref_link h rnd m state :: 'r tok res) = (Inr (Text (unescape (group0 m))), state)
      \<and> (parse_ref_link2 h rnd m state :: 'r tok res) = (Inr (Text (unescape (group0 m))), state)
      \<and> (BSL \<notin> set (group0 m) \<longrightarrow> unescape (group0 m) = group0 m))
   \<and> (group m 1 = Some g
      \<and> (def_footnotes state = None \<or> def_footnotes state = Some []
          \<or> (\<exists>df. def_footnotes state = Some df \<and> lower g \<notin> set df)) \<longrightarrow>
      (parse_footnote m state :: 'r tok res) = (Inr (Text (group0 m)), state))
   \<and> render h ast_renderer ''[foo]'' (empty_state\<lparr>def_links := Some []\<rparr>) None =
       (Inr (Nodes [Ast (Text ''[foo]'')]), empty_state\<lparr>def_links := Some []\<rparr>)"
proof -
  have 1: "(parse_ref_link h rnd m state :: 'r tok res) = (Inr (Text (unescape (group0 m))), state)"
    if "(case group m 2 of None \<Rightarrow> group m 1 | Some g \<Rightarrow> if g = [] then group m 1 else Some g)
          = Some k"
      and "def_links state = None \<or> def_links state = Some []
          \<or> (\<exists>dl. def_links state = Some dl \<and> map_of dl (unikey h k) = None)"
    using that by (rule parse_ref_link_unresolved)
  have 2: "(parse_footnote m state :: 'r tok res) = (Inr (Text (group0 m)), state)"
    if "group m 1 = Some g"
      and "def_footnotes state = None \<or> def_footnotes state = Some []
          \<or> (\<exists>df. def_footnotes state = Some df \<and> lower g \<notin> set df)"
    using that by (rule parse_footnote_unresolved)
  have 3: "(parse_ref_link2 h rnd m state :: 'r tok res) = parse_ref_link h rnd m state"
    by (simp add: parse_ref_link2_def)
  show ?thesis
    unfolding 3 using 1 2 unescape_no_backslash[of "group0 m"] ref_fallback_example[of h]
    by blast
qed

definition ref_match :: match where
  "ref_match = \<lparr>m_start = 0, m_end = 5, group0 = ''[foo]'', groups = [(1, ''foo'')]\<rparr>"

definition footnote_match :: match where
  "footnote_match = \<lparr>m_start = 0, m_end = 4, group0 = ''[^c]'', groups = [(1, ''c'')]\<rparr>"

theorem C6_unresolved_witness:
  "(parse_ref_link example_helpers (\<lambda>t st. render example_helpers ast_renderer t st None) ref_match footnote_state :: ast tok res)
      = (Inr (Text ''[foo]''), footnote_state)
   \<and> (parse_footnote footnote_match footnote_state :: ast tok res)
      = (Inr (Text ''[^c]''), footnote_state)"
proof -
  have 1: "(case group ref_match 2 of None \<Rightarrow> group ref_match 1
            | Some g \<Rightarrow> if g = [] then group ref_match 1 else Some g) = Some ''foo''"
    by (simp add: ref_match_def group_def)
  have 2: "def_links footnote_state = Some []" by (simp add: footnote_state_def)
  have 3: "BSL \<notin> set (group0 ref_match)" by (simp add: ref_match_def)
  have 4: "group footnote_match 1 = Some ''c''" by (simp add: footnote_match_def group_def)
  have 5: "lower ''c'' = ''c''" by code_simp
  have 6: "\<exists>df. def_footnotes footnote_state = Some df \<and> lower ''c'' \<notin> set df"
    unfolding 5 by (simp add: footnote_state_def)
  note c = C6_unresolved[where 'r = ast and state = footnote_state and h = example_helpers]
  have a: "(parse_ref_link example_helpers (\<lambda>t st. render example_helpers ast_renderer t st None) ref_match footnote_state :: ast tok res)
      = (Inr (Text (unescape (group0 ref_match))), footnote_state)
      \<and> unescape (group0 ref_match) = group0 ref_match"
    using c[of ref_match "''foo''" "\<lambda>t st. render example_helpers ast_renderer t st None"] 1 2 3
    by blast
  have b: "(parse_footnote footnote_match footnote_state :: ast tok res)
      = (Inr (Text (group0 footnote_match)), footnote_state)"
    using c[of footnote_match _ _ "''c''"] 4 6 by blast
  show ?thesis using a b by (simp add: ref_match_def footnote_match_def)
qed

section \<open>The link guard\<close>

lemma tokenize_link_exit:
  assumes "tokenize_link h rnd line link text title state = (Inr t, state')"
  shows "in_link state' = Some (in_link state = Some True)"
proof (cases "in_link state = Some True")
  case True
  with assms show ?thesis by (simp add: tokenize_link_def)
next
  case False
  with assms show ?thesis
    by (cases "text") (auto simp: tokenize_link_def Let_def split: prod.splits sum.splits)
qed

text \<open>
  C3, as stated, fails on the exceptional exit: the link \<open>[~~x~~](u)\<close> is tokenized with the
  guard \<open>False\<close> on entry, the renderer has no method for the strikethrough inside the link
  text, and the error leaves \<open>tokenize_link\<close> with the guard \<open>True\<close>.
\<close>

theorem C3_counterexample:
  "tokenize_link example_helpers (\<lambda>t st. render example_helpers core_renderer t st None)
       ''[~~x~~](u)'' ''u'' (Some ''~~x~~'') None (empty_state\<lparr>in_link := Some False\<rparr>)
     = (Inl AttributeError, empty_state\<lparr>in_link := Some True\<rparr>)
   \<and> render example_helpers core_renderer ''[~~x~~](u)'' (empty_state\<lparr>in_link := Some False\<rparr>) None
     = (Inl AttributeError, empty_state\<lparr>in_link := Some True\<rparr>)"
  by code_simp

text \<open>
  C3 (amended): on every normal exit of \<open>tokenize_link\<close> the guard has the truth value it
  had on entry: it is \<open>False\<close> after a link has been tokenized (the guard was absent or
  \<open>False\<close> on entry) and still \<open>True\<close> when the call returned the literal text because a
  link was open already.
\<close>

theorem C3_guard_normal_exit:
  "tokenize_link h rnd line link text title state = (Inr t, state') \<longrightarrow>
     in_link state' = Some (in_link state = Some True)"
  using tokenize_link_exit by blast

theorem C3_guard_normal_exit_witness:
  "tokenize_link example_helpers (\<lambda>t st. render example_helpers ast_renderer t st None)
       ''[b](u)'' ''u'' (Some ''b'') None (empty_state\<lparr>in_link := Some False\<rparr>)
     = (Inr (Link ''u'' (Nodes [Ast (Text ''b'')]) None), empty_state\<lparr>in_link := Some False\<rparr>)
   \<and> in_link (empty_state\<lparr>in_link := Some False\<rparr>)
     = Some (in_link (empty_state\<lparr>in_link := Some False\<rparr>) = Some True)"
proof -
  have 1: "tokenize_link example_helpers (\<lambda>t st. render example_helpers ast_renderer t st None)
       ''[b](u)'' ''u'' (Some ''b'') None (empty_state\<lparr>in_link := Some False\<rparr>)
     = (Inr (Link ''u'' (Nodes [Ast (Text ''b'')]) None), empty_state\<lparr>in_link := Some False\<rparr>)"
    by code_simp
  from C3_guard_normal_exit[of example_helpers
      "\<lambda>t st. render example_helpers ast_renderer t st None" "''[b](u)''" "''u''" "Some ''b''"
      None "empty_state\<lparr>in_link := Some False\<rparr>" _ "empty_state\<lparr>in_link := Some False\<rparr>"] 1
  show ?thesis by blast
qed

subsection \<open>Links inside link text\<close>

text \<open>
  C2: the code at the failing input. While the text of the link \<open>[a <http://b.c> d](u1)\<close>
  is rendered the guard is set, but \<open>parse_auto_link\<close> never reads it: its token is the same
  whatever the guard says, and the autolink comes out as a \<open>Link\<close> token nested in the
  text of the outer \<open>Link\<close>. \<open>tokenize_link\<close>, which the bracketed forms go through, does
  return the literal source when the guard is set, and the inner link of
  \<open>[a [b](u2) c](u1)\<close> comes out as the text \<open>[b](u2)\<close>.
\<close>

theorem C2_nested_auto_link:
  "render h ast_renderer ''[a <http://b.c> d](u1)'' empty_state None =
     (Inr (Nodes [Ast (Link (escape_url h ''u1'')
                    (Nodes [Ast (Text ''a ''),
                            Ast (Link (escape_url h ''http://b.c'') (Str ''http://b.c'') None),
                            Ast (Text '' d'')]) None)]),
      empty_state\<lparr>in_link := Some False\<rparr>)
   \<and> (\<forall>b. (parse_auto_link h m (state\<lparr>in_link := b\<rparr>) :: 'r tok res)
          = (fst (parse_auto_link h m state :: 'r tok res), state\<lparr>in_link := b\<rparr>))
   \<and> (tokenize_link h rnd line link text title (state\<lparr>in_link := Some True\<rparr>) :: 'r tok res)
       = (Inr (Text line), state\<lparr>in_link := Some True\<rparr>)
   \<and> render h ast_renderer ''[a [b](u2) c](u1)'' empty_state None =
     (Inr (Nodes [Ast (Link (escape_url h ''u1'')
                    (Nodes [Ast (Text ''a ''), Ast (Text ''[b](u2)''), Ast (Text '' c'')])
                    None)]),
      empty_state\<lparr>in_link := Some False\<rparr>)"
proof -
  have 1: "render h ast_renderer ''[a <http://b.c> d](u1)'' empty_state None =
     (Inr (Nodes [Ast (Link (escape_url h ''u1'')
                    (Nodes [Ast (Text ''a ''),
                            Ast (Link (escape_url h ''http://b.c'') (Str ''http://b.c'') None),
                            Ast (Text '' d'')]) None)]),
      empty_state\<lparr>in_link := Some False\<rparr>)"
    by code_simp
  have 2: "(parse_auto_link h m (state\<lparr>in_link := b\<rparr>) :: 'r tok res)
          = (fst (parse_auto_link h m state :: 'r tok res), state\<lparr>in_link := b\<rparr>)" for b
    by (simp add: parse_auto_link_def Let_def split: option.splits)
  have 3: "(tokenize_link h rnd line link text title (state\<lparr>in_link := Some True\<rparr>) :: 'r tok res)
       = (Inr (Text line), state\<lparr>in_link := Some True\<rparr>)"
    by (simp add: tokenize_link_def)
  have 4: "render h ast_renderer ''[a [b](u2) c](u1)'' empty_state None =
     (Inr (Nodes [Ast (Link (escape_url h ''u1'')
                    (Nodes [Ast (Text ''a ''), Ast (Text ''[b](u2)''), Ast (Text '' c'')])
                    None)]),
      empty_state\<lparr>in_link := Some False\<rparr>)"
    by code_simp
  from 1 2 3 4 show ?thesis by blast
qed

section \<open>Code spans\<close>

text \<open>What a match of a sequence went through, and what each step does to the groups.\<close>

lemma in_Cat:
  "s' \<in> set (rmatch (Cat a b) s) \<Longrightarrow> \<exists>s1 \<in> set (rmatch a s). s' \<in> set (rmatch b s1)"
  by auto

lemma in_Ahead: "s' \<in> set (rmatch (Ahead q r) s) \<Longrightarrow> s' = s"
  by (simp split: if_splits)

lemma in_Behind: "s' \<in> set (rmatch (Behind q r) s) \<Longrightarrow> s' = s"
  by (simp split: if_splits)

lemma in_Ref: "s' \<in> set (rmatch (Ref n) s) \<Longrightarrow> caps s' = caps s"
  by (auto split: option.splits if_splits)

lemma in_Grp: "s' \<in> set (rmatch (Grp n r) s) \<Longrightarrow> \<exists>v. map_of (caps s') n = Some v"
  by auto

text \<open>Every match of the code-span pattern binds its second group, the inner text.\<close>

lemma CODESPAN_group2:
  assumes "match_at CODESPAN s p = Some m"
  shows "\<exists>g. group m 2 = Some g"
proof -
  let ?s0 = "\<lparr>seen = rev (take p s), rest = drop p s, caps = []\<rparr>"
  from assms obtain s' ss where s': "rmatch CODESPAN ?s0 = s' # ss" and m: "groups m = caps s'"
    by (auto simp: match_at_def split: list.splits)
  have "s' \<in> set (rmatch CODESPAN ?s0)" using s' by simp
  then obtain s1 where "s' \<in> set (rmatch (Cat (Grp 2 (many1_lazy anychar))
      (Cat (Behind False (Lit CHR ''`'')) (Cat (Ref 1) (Ahead False (Lit CHR ''`''))))) s1)"
    unfolding CODESPAN_def seq.simps by (blast dest: in_Cat)
  then obtain s2 s3 s4 where k: "s2 \<in> set (rmatch (Grp 2 (many1_lazy anychar)) s1)"
    "s3 \<in> set (rmatch (Behind False (Lit CHR ''`'')) s2)"
    "s4 \<in> set (rmatch (Ref 1) s3)" "s' \<in> set (rmatch (Ahead False (Lit CHR ''`'')) s4)"
    by (blast dest: in_Cat)
  have "\<exists>v. map_of (caps s2) 2 = Some v" "s3 = s2" "caps s4 = caps s3" "s' = s4"
    using k(1) apply (rule in_Grp)
    using k(2) apply (rule in_Behind)
    using k(3) apply (rule in_Ref)
    using k(4) apply (rule in_Ahead)
    done
  then have "\<exists>v. map_of (caps s') 2 = Some v" by simp
  then show ?thesis by (simp add: group_def m)
qed

text \<open>
  \<open>collapse\<close> leaves a text without spaces and newlines as it is and puts one space where
  a run of spaces and newlines stood between two other pieces of text; together the two
  equations fix its value on every text. \<open>strip\<close> cuts a whitespace prefix and a
  whitespace suffix off and leaves no whitespace at either end.
\<close>

lemma last_dropWhile: "dropWhile P xs \<noteq> [] \<Longrightarrow> last (dropWhile P xs) = last xs"
proof -
  assume "dropWhile P xs \<noteq> []"
  then have "last (takeWhile P xs @ dropWhile P xs) = last (dropWhile P xs)"
    by (rule last_appendR)
  then show ?thesis by (simp only: takeWhile_dropWhile_id)
qed

lemma collapse_id: "list_all (\<lambda>c. c \<noteq> CHR '' '' \<and> c \<noteq> NL) u \<Longrightarrow> collapse u = u"
  by (induction u) simp_all

lemma collapse_run:
  assumes "w \<noteq> []" "list_all (\<lambda>c. c = CHR '' '' \<or> c = NL) w"
    and "u \<noteq> [] \<longrightarrow> \<not> (last u = CHR '' '' \<or> last u = NL)"
    and "v \<noteq> [] \<longrightarrow> \<not> (hd v = CHR '' '' \<or> hd v = NL)"
  shows "collapse (u @ w @ v) = collapse u @ CHR '' '' # collapse v"
  using assms(3)
proof (induction u rule: length_induct)
  case (1 u)
  let ?B = "\<lambda>c. c = CHR '' '' \<or> c = NL"
  have dv: "dropWhile ?B v = v" using assms(4) by (cases v) auto
  have dw: "dropWhile ?B (x @ v) = v" if "list_all ?B x" for x
    using that dv by (induction x) auto
  show ?case
  proof (cases u)
    case Nil
    obtain c w' where w: "w = c # w'" using assms(1) by (cases w) auto
    with assms(2) have "?B c" "list_all ?B w'" by simp_all
    then show ?thesis using Nil w dw[of w'] by auto
  next
    case (Cons a u')
    show ?thesis
    proof (cases "?B a")
      case False
      have "u' \<noteq> [] \<longrightarrow> \<not> ?B (last u')" using 1(2) Cons by auto
      then have "collapse (u' @ w @ v) = collapse u' @ CHR '' '' # collapse v"
        using 1(1) Cons by simp
      then show ?thesis using Cons False by simp
    next
      case True
      then have ne: "u' \<noteq> []" using 1(2) Cons by auto
      then have lst: "\<not> ?B (last u')" using 1(2) Cons by auto
      let ?d = "dropWhile ?B u'"
      have ex: "\<exists>x \<in> set u'. \<not> ?B x" using ne lst last_in_set by blast
      then obtain x where x: "x \<in> set u'" "\<not> ?B x" by blast
      have d1: "dropWhile ?B (u' @ w @ v) = ?d @ w @ v"
        using x by (rule dropWhile_append1)
      have dne: "?d \<noteq> []" using ex by (simp add: dropWhile_eq_Nil_conv)
      have "last ?d = last u'" using dne by (rule last_dropWhile)
      then have "?d \<noteq> [] \<longrightarrow> \<not> ?B (last ?d)" using lst by simp
      moreover have "length ?d < length u" using Cons length_dropWhile_le[of ?B u']
        by (simp add: le_imp_less_Suc)
      ultimately have "collapse (?d @ w @ v) = collapse ?d @ CHR '' '' # collapse v"
        using 1(1) by blast
      then show ?thesis using Cons True d1 by simp
    qed
  qed
qed

lemma collapse_Nil: "(collapse u = []) = (u = [])"
  by (cases u) simp_all

lemma collapse_hd:
  "u \<noteq> [] \<Longrightarrow> \<not> (hd u = CHR '' '' \<or> hd u = NL) \<Longrightarrow> hd (collapse u) = hd u"
  by (cases u) simp_all

lemma collapse_last:
  "u \<noteq> [] \<Longrightarrow> \<not> (last u = CHR '' '' \<or> last u = NL) \<Longrightarrow> last (collapse u) = last u"
proof (induction u rule: collapse.induct)
  case 1
  then show ?case by simp
next
  case (2 c cs)
  let ?B = "\<lambda>c. c = CHR '' '' \<or> c = NL"
  show ?case
  proof (cases "?B c")
    case False
    then show ?thesis using 2 by (cases cs) (auto simp: collapse_Nil)
  next
    case True
    then have ne: "cs \<noteq> []" using 2(4) by auto
    then have lst: "\<not> ?B (last cs)" using 2(4) by auto
    let ?d = "dropWhile ?B cs"
    have ex: "\<exists>x \<in> set cs. \<not> ?B x" using ne lst last_in_set by blast
    have dne: "?d \<noteq> []" using ex by (simp add: dropWhile_eq_Nil_conv)
    have ld: "last ?d = last cs" using dne by (rule last_dropWhile)
    have "last (collapse ?d) = last ?d" using 2(1) True dne ld lst by simp
    moreover have "collapse (c # cs) = CHR '' '' # collapse ?d" using True by simp
    moreover have "collapse ?d \<noteq> []" using dne by (simp only: collapse_Nil not_False_eq_True)
    ultimately have "last (collapse (c # cs)) = last cs" using ld by simp
    then show ?thesis using ne by simp
  qed
qed

lemma blank_isspace: "c = CHR '' '' \<or> c = NL \<Longrightarrow> py_isspace c"
  by (auto simp: py_isspace_def code_def)

lemma strip_parts:
  "\<exists>a b. g = a @ strip g @ b \<and> list_all py_isspace a \<and> list_all py_isspace b"
proof -
  let ?t = "dropWhile py_isspace g"
  have 1: "g = takeWhile py_isspace g @ ?t" by simp
  have "rev (takeWhile py_isspace (rev ?t) @ dropWhile py_isspace (rev ?t)) = rev (rev ?t)"
    by (simp only: takeWhile_dropWhile_id)
  then have "rev (dropWhile py_isspace (rev ?t)) @ rev (takeWhile py_isspace (rev ?t)) = ?t"
    by (simp only: rev_append rev_rev_ident)
  then have 2: "?t = strip g @ rev (takeWhile py_isspace (rev ?t))"
    by (simp only: strip_def)
  have 3: "list_all py_isspace (takeWhile py_isspace g)"
    by (simp add: list_all_iff) (meson set_takeWhileD)
  have 4: "list_all py_isspace (rev (takeWhile py_isspace (rev ?t)))"
    by (simp add: list_all_iff) (meson set_takeWhileD)
  have "takeWhile py_isspace g @ ?t
           = takeWhile py_isspace g @ strip g @ rev (takeWhile py_isspace (rev ?t))"
    using 2 by (rule arg_cong)
  then have "g = takeWhile py_isspace g @ strip g @ rev (takeWhile py_isspace (rev ?t))"
    by (simp only: takeWhile_dropWhile_id)
  with 3 4 show ?thesis by blast
qed

lemma strip_ends:
  assumes "strip g \<noteq> []"
  shows "\<not> py_isspace (hd (strip g))" and "\<not> py_isspace (last (strip g))"
proof -
  let ?t = "dropWhile py_isspace g"
  let ?d = "dropWhile py_isspace (rev ?t)"
  have d: "?d \<noteq> []" using assms by (simp add: strip_def)
  have t: "?t \<noteq> []"
  proof
    assume "?t = []"
    then have "?d = []" by (simp only: rev.simps(1) dropWhile.simps(1))
    with d show False by simp
  qed
  have "\<not> py_isspace (hd ?d)" using d by (rule hd_dropWhile)
  then show "\<not> py_isspace (last (strip g))" using d by (simp add: strip_def last_rev)
  have "last ?d = last (rev ?t)" using d by (rule last_dropWhile)
  then have "hd (strip g) = hd ?t" using d t by (simp add: strip_def hd_rev last_rev)
  moreover have "\<not> py_isspace (hd ?t)" using t by (rule hd_dropWhile)
  ultimately show "\<not> py_isspace (hd (strip g))" by simp
qed

lemma codespan_example:
  "render h ast_renderer ''`*not emphasis*`'' state None
     = (Inr (Nodes [Ast (Codespan ''*not emphasis*'')]), state)"
  by code_simp

text \<open>
  C7: for every match of the code-span pattern the inner text \<open>g\<close> (group 2) is there and
  the action emits \<open>Codespan(collapse (strip g))\<close> with the state unchanged, whatever the
  render function is (the action does not call it, and the token holds a string). \<open>strip g\<close>
  is \<open>g\<close> without a leading and a trailing run of whitespace and has no whitespace at its
  ends, nor has the emitted content; \<open>collapse\<close> keeps text without spaces and newlines
  and replaces every run of spaces and newlines between two pieces of text by one space.
  The text \<open>`*not emphasis*`\<close> yields the single token \<open>Codespan("*not emphasis*")\<close>.
\<close>

theorem C7_codespan:
  "(match_at CODESPAN s p = Some m \<longrightarrow>
      (\<exists>g. group m 2 = Some g
         \<and> (\<forall>rnd. (rule_method h rnd codespan m state :: 'r tok res)
                     = (Inr (Codespan (collapse (strip g))), state))))
   \<and> (\<exists>a b. g = a @ strip g @ b \<and> list_all py_isspace a \<and> list_all py_isspace b)
   \<and> (strip g \<noteq> [] \<longrightarrow>
        \<not> py_isspace (hd (strip g)) \<and> \<not> py_isspace (last (strip g))
        \<and> collapse (strip g) \<noteq> []
        \<and> hd (collapse (strip g)) = hd (strip g) \<and> last (collapse (strip g)) = last (strip g))
   \<and> (list_all (\<lambda>c. c \<noteq> CHR '' '' \<and> c \<noteq> NL) u \<longrightarrow> collapse u = u)
   \<and> (w \<noteq> [] \<and> list_all (\<lambda>c. c = CHR '' '' \<or> c = NL) w
        \<and> (u \<noteq> [] \<longrightarrow> \<not> (last u = CHR '' '' \<or> last u = NL))
        \<and> (v \<noteq> [] \<longrightarrow> \<not> (hd v = CHR '' '' \<or> hd v = NL)) \<longrightarrow>
      collapse (u @ w @ v) = collapse u @ CHR '' '' # collapse v)
   \<and> render h ast_renderer ''`*not emphasis*`'' state None
       = (Inr (Nodes [Ast (Codespan ''*not emphasis*'')]), state)"
  (is "(_ \<longrightarrow> ?A) \<and> ?B \<and> (_ \<longrightarrow> ?C) \<and> (_ \<longrightarrow> ?D) \<and> (_ \<longrightarrow> ?E) \<and> ?F")
proof -
  have A: ?A if "match_at CODESPAN s p = Some m"
  proof -
    from CODESPAN_group2[OF that] obtain g where "group m 2 = Some g" by blast
    then show ?thesis by (simp add: parse_codespan_def)
  qed
  have B: ?B by (rule strip_parts)
  have C: ?C if ne: "strip g \<noteq> []"
  proof -
    note e = strip_ends[OF ne]
    have h: "\<not> (hd (strip g) = CHR '' '' \<or> hd (strip g) = NL)"
      using e(1) blank_isspace by blast
    have l: "\<not> (last (strip g) = CHR '' '' \<or> last (strip g) = NL)"
      using e(2) blank_isspace by blast
    show ?thesis
      using e ne collapse_hd[OF ne h] collapse_last[OF ne l] by (simp add: collapse_Nil)
  qed
  have D: ?D if "list_all (\<lambda>c. c \<noteq> CHR '' '' \<and> c \<noteq> NL) u"
    using that by (rule collapse_id)
  have E: ?E if "w \<noteq> [] \<and> list_all (\<lambda>c. c = CHR '' '' \<or> c = NL) w
        \<and> (u \<noteq> [] \<longrightarrow> \<not> (last u = CHR '' '' \<or> last u = NL))
        \<and> (v \<noteq> [] \<longrightarrow> \<not> (hd v = CHR '' '' \<or> hd v = NL))"
    by (rule collapse_run) (use that in blast)+
  have F: ?F by (rule codespan_example)
  from A B C D E F show ?thesis by blast
qed

theorem C7_codespan_witness:
  "match_at CODESPAN (''` a'' @ [NL] @ '' b `'') 0
     = Some \<lparr>m_start = 0, m_end = 8, group0 = ''` a'' @ [NL] @ '' b `'',
             groups = [(2, '' a'' @ [NL] @ '' b ''), (1, ''`'')]\<rparr>
   \<and> (rule_method example_helpers (\<lambda>t st. (Inl TypeError, st)) codespan
        \<lparr>m_start = 0, m_end = 8, group0 = ''` a'' @ [NL] @ '' b `'',
          groups = [(2, '' a'' @ [NL] @ '' b ''), (1, ''`'')]\<rparr> empty_state :: ast tok res)
       = (Inr (Codespan ''a b''), empty_state)
   \<and> strip ('' a'' @ [NL] @ '' b '') = ''a'' @ [NL] @ '' b''
   \<and> collapse (''a'' @ (NL # '' '') @ ''b'') = ''a b''
   \<and> collapse ''a'' = ''a''
   \<and> last (collapse (strip ('' a'' @ [NL] @ '' b ''))) = CHR ''b''"
proof -
  let ?s = "''` a'' @ [NL] @ '' b `''"
  let ?g = "'' a'' @ [NL] @ '' b ''"
  let ?m = "\<lparr>m_start = 0, m_end = 8, group0 = ?s, groups = [(2, ?g), (1, ''`'')]\<rparr>"
  have 1: "match_at CODESPAN ?s 0 = Some ?m" by code_simp
  have 2: "strip ?g = ''a'' @ [NL] @ '' b''" by code_simp
  have 3: "group ?m 2 = Some ?g" by (simp add: group_def)
  note t = C7_codespan[where 'r = ast, of ?s 0 ?m example_helpers empty_state ?g "''a''"
             "NL # '' ''" "''b''"]
  from t 1 obtain g where g: "group ?m 2 = Some g"
     "(rule_method example_helpers (\<lambda>t st. (Inl TypeError, st)) codespan ?m empty_state
         :: ast tok res) = (Inr (Codespan (collapse (strip g))), empty_state)"
    by blast
  from g(1) 3 have "g = ?g" by simp
  moreover have 4: "collapse (''a'' @ (NL # '' '') @ ''b'') = ''a'' @ CHR '' '' # ''b''"
    using t by simp
  ultimately have 5: "(rule_method example_helpers (\<lambda>t st. (Inl TypeError, st)) codespan ?m
        empty_state :: ast tok res) = (Inr (Codespan ''a b''), empty_state)"
    using g(2) 2 by simp
  have 6: "collapse ''a'' = ''a''" using t by simp
  have 7: "last (collapse (strip ?g)) = last (strip ?g)" using t 2 by simp
  from 1 2 4 5 6 7 show ?thesis by simp
qed

end
